theory Spec2Isabelle
  imports Main "HOL-Library.Word"
begin

unbundle bit_operations_syntax

section \<open>A shallow embedding of the thread-local arena allocator (arena.c)\<close>

text \<open>
  The allocator is modelled on an LP64 platform: \<open>size_t\<close> and \<open>uintptr_t\<close> are
  64-bit words whose arithmetic wraps, as C's unsigned arithmetic does. A pointer is
  its address; the null pointer is the address 0.

  Two constants of the C program are fixed by the platform and not by the repository:
  \<^item> \<open>sizeof(BlockHeader)\<close>, which is 24 on every LP64 ABI (an 8-byte \<open>size_t\<close>, a
    4-byte \<open>int\<close> followed by 4 bytes of padding, an 8-byte pointer);
  \<^item> \<open>sizeof(max_align_t)\<close>, which is 32 with GCC and Clang on x86-64 and AArch64
    Linux (the platforms of \<open>pthread\<close> and \<open>_GNU_SOURCE\<close>) and smaller on some other
    platforms. Every function that expands the \<open>ALIGN\<close> macro takes it as its first
    parameter \<open>A\<close>; the macro computes a multiple of \<open>A\<close> only for a power of two.
\<close>

type_synonym size_t = "64 word"
type_synonym addr = "64 word"
type_synonym byte = "8 word"

definition hdr_size :: size_t where
  "hdr_size = 24"

definition sizeof_ThreadArena :: size_t where
  "sizeof_ThreadArena = 32"

text \<open>\<^verbatim>\<open>#define ALIGN(x) (((x) + sizeof(max_align_t) - 1) & ~(sizeof(max_align_t) - 1))\<close>\<close>

definition ALIGN :: "size_t \<Rightarrow> size_t \<Rightarrow> size_t" where
  "ALIGN A x = (x + A - 1) AND NOT (A - 1)"

definition GROWTH_FACTOR :: size_t where
  "GROWTH_FACTOR = 2"

definition MIN_THREAD_STACK :: size_t where
  "MIN_THREAD_STACK = 5 * 1024 * 1024"

text \<open>
  \<open>struct BlockHeader\<close>. The field \<open>size\<close> is named \<open>size_f\<close> and \<open>next\<close> is named
  \<open>next_f\<close>; \<open>freed\<close> is a C \<open>int\<close>, tested for being non-zero.
\<close>

record BlockHeader =
  size_f :: size_t
  freed :: "32 word"
  next_f :: addr

record ThreadArena =
  buffer :: addr
  capacity :: size_t
  offset :: size_t
  freelist :: addr

text \<open>
  The memory one thread sees. \<open>arena_key\<close> is the thread's slot of the pthread key
  (\<open>None\<close> while \<open>pthread_getspecific\<close> returns null); the slot holds the arena
  structure itself. \<open>hdrs p\<close> is the header object stored at address \<open>p\<close> and
  \<open>bytes p\<close> the payload byte at \<open>p\<close>. Reading a header at any address returns
  what is stored there, as the C code reads \<open>((BlockHeader*)ptr) - 1\<close> unchecked.

  Memory is seen through two views. An assignment to a header field changes that
  header object and no payload byte. A bulk write (\<open>memset\<close>, \<open>memcpy\<close>) changes the
  payload bytes of its range and, byte by byte, every header object whose storage lies
  in the range (a header that coalescing has absorbed lies inside a payload): see
  \<open>store_bytes\<close> below. The model says nothing about a payload byte read where a
  header has been assigned since.
\<close>

record state =
  arena_key :: "ThreadArena option"
  hdrs :: "addr \<Rightarrow> BlockHeader"
  bytes :: "addr \<Rightarrow> byte"

text \<open>
  The C library as one call of the allocator sees it: \<open>malloc n\<close> and
  \<open>realloc p n\<close> return the address of the block, or 0 when they fail.
\<close>

record libc =
  malloc :: "size_t \<Rightarrow> addr"
  realloc :: "addr \<Rightarrow> size_t \<Rightarrow> addr"

text \<open>\<open>get_arena\<close>: fetch or create the current thread's arena.\<close>

definition get_arena :: "size_t \<Rightarrow> libc \<Rightarrow> state \<Rightarrow> ThreadArena option \<times> state" where
  "get_arena A lc s =
     (case arena_key s of
        Some a \<Rightarrow> (Some a, s)
      | None \<Rightarrow>
          if malloc lc sizeof_ThreadArena = 0 then (None, s)
          else
            let cap = ALIGN A MIN_THREAD_STACK;
                buf = malloc lc cap
            in if buf = 0 then (None, s)
               else
                 let a = \<lparr>buffer = buf, capacity = cap, offset = 0, freelist = 0\<rparr>
                 in (Some a, s\<lparr>arena_key := Some a\<rparr>))"

text \<open>
  The loop of \<open>arena_expand\<close>:
  \<^verbatim>\<open>while (new_cap < required) {
      new_cap = new_cap ? new_cap * GROWTH_FACTOR : ALIGN(required);
      if (new_cap < required) new_cap = required;
  }\<close>
\<close>

function expand_loop :: "size_t \<Rightarrow> size_t \<Rightarrow> size_t \<Rightarrow> size_t" where
  "expand_loop A required new_cap =
     (if new_cap < required then
        (let nc = (if new_cap \<noteq> 0 then new_cap * GROWTH_FACTOR else ALIGN A required)
         in expand_loop A required (if nc < required then required else nc))
      else new_cap)"
  by pat_completeness auto
termination
  by (relation "measure (\<lambda>(A, required, new_cap). if new_cap < required then 1 else 0)")
     (auto simp: Let_def)

declare expand_loop.simps [simp del]

text \<open>
  What a successful \<open>realloc\<close> does to memory: the first \<open>n\<close> bytes of the old block
  are found at the new address. When the block does not move this changes nothing.
  When it moves, every pointer into the old block is stale (the free list and the
  pointers held by the caller are addresses, not offsets); the C program's reads
  through them are undefined, the model returns the old contents.
\<close>

definition moved :: "addr \<Rightarrow> addr \<Rightarrow> size_t \<Rightarrow> (addr \<Rightarrow> 'a) \<Rightarrow> addr \<Rightarrow> 'a" where
  "moved old new n m = (\<lambda>q. if q - new < n then m (old + (q - new)) else m q)"

text \<open>\<open>arena_expand\<close> returns -1 or 0, the arena and the memory.\<close>

definition arena_expand ::
  "size_t \<Rightarrow> libc \<Rightarrow> ThreadArena \<Rightarrow> state \<Rightarrow> size_t \<Rightarrow> int \<times> ThreadArena \<times> state" where
  "arena_expand A lc a s required =
     (let new_cap = expand_loop A required (capacity a);
          new_buf = realloc lc (buffer a) new_cap
      in if new_buf = 0 then (- 1, a, s)
         else (0, a\<lparr>buffer := new_buf, capacity := new_cap\<rparr>,
               s\<lparr>hdrs := moved (buffer a) new_buf (min (capacity a) new_cap) (hdrs s),
                 bytes := moved (buffer a) new_buf (min (capacity a) new_cap) (bytes s)\<rparr>))"

text \<open>
  The search loop of \<open>freelist_insert_and_coalesce\<close>:
  \<^verbatim>\<open>while (curr && curr < block) { prev = curr; curr = curr->next; }\<close>
  It follows \<open>next\<close> pointers through memory and need not end on a cyclic list:
  \<open>None\<close> is the loop that does not return.
\<close>

partial_function (option) find_pos ::
  "(addr \<Rightarrow> BlockHeader) \<Rightarrow> addr \<Rightarrow> addr \<Rightarrow> addr \<Rightarrow> (addr \<times> addr) option" where
  "find_pos h block prev cur =
     (if cur \<noteq> 0 \<and> cur < block then find_pos h block cur (next_f (h cur))
      else Some (prev, cur))"

declare find_pos.simps [code]

text \<open>
  \<open>freelist_insert_and_coalesce\<close>, one assignment of the C function after the other.
\<close>

definition coalesce_next :: "(addr \<Rightarrow> BlockHeader) \<Rightarrow> addr \<Rightarrow> addr \<Rightarrow> BlockHeader" where
  "coalesce_next h block = 
     (let nx = next_f (h block) in
      if nx \<noteq> 0 \<and> freed (h nx) \<noteq> 0 then
        (let end_block = block + hdr_size + size_f (h block);
             start_next = nx
         in if end_block = start_next then
              (let h1 = h(block := (h block)\<lparr>size_f := size_f (h block) + (hdr_size + size_f (h nx))\<rparr>)
               in h1(block := (h1 block)\<lparr>next_f := next_f (h1 (next_f (h1 block)))\<rparr>))
            else h)
      else h)"

definition coalesce_prev :: "(addr \<Rightarrow> BlockHeader) \<Rightarrow> addr \<Rightarrow> addr \<Rightarrow> addr \<Rightarrow> BlockHeader" where
  "coalesce_prev h prev block =
     (if prev \<noteq> 0 \<and> freed (h prev) \<noteq> 0 then
        (let end_prev = prev + hdr_size + size_f (h prev);
             start_block = block
         in if end_prev = start_block then
              (let h1 = h(prev := (h prev)\<lparr>size_f := size_f (h prev) + (hdr_size + size_f (h block))\<rparr>)
               in h1(prev := (h1 prev)\<lparr>next_f := next_f (h1 block)\<rparr>))
            else h)
      else h)"

definition freelist_insert_and_coalesce ::
  "ThreadArena \<Rightarrow> state \<Rightarrow> addr \<Rightarrow> (ThreadArena \<times> state) option" where
  "freelist_insert_and_coalesce a s block =
     (let h0 = hdrs s;
          h1 = h0(block := (h0 block)\<lparr>freed := 1\<rparr>);
          h2 = h1(block := (h1 block)\<lparr>next_f := 0\<rparr>)
      in case find_pos h2 block 0 (freelist a) of
           None \<Rightarrow> None
         | Some (prev, cur) \<Rightarrow>
             let h3 = (if prev \<noteq> 0 then h2(prev := (h2 prev)\<lparr>next_f := block\<rparr>) else h2);
                 a' = (if prev \<noteq> 0 then a else a\<lparr>freelist := block\<rparr>);
                 h4 = h3(block := (h3 block)\<lparr>next_f := cur\<rparr>);
                 h5 = coalesce_next h4 block;
                 h6 = coalesce_prev h5 prev block
             in Some (a', s\<lparr>hdrs := h6\<rparr>))"

text \<open>
  \<open>BlockHeader** prevp\<close> of \<open>armalloc\<close> points either to the arena's \<open>freelist\<close>
  field or to the \<open>next\<close> field of a header.
\<close>

datatype linkp = FreelistField | NextField addr

text \<open>
  The first-fit loop of \<open>armalloc\<close>, up to the block it returns: \<open>Some None\<close> when
  the loop ends without a block, \<open>None\<close> when it does not end.
\<close>

partial_function (option) first_fit ::
  "(addr \<Rightarrow> BlockHeader) \<Rightarrow> size_t \<Rightarrow> linkp \<Rightarrow> addr \<Rightarrow> (linkp \<times> addr) option option" where
  "first_fit h aligned prevp cur =
     (if cur \<noteq> 0 then
        (if freed (h cur) \<noteq> 0 \<and> aligned \<le> size_f (h cur) then Some (Some (prevp, cur))
         else first_fit h aligned (NextField cur) (next_f (h cur)))
      else Some None)"

declare first_fit.simps [code]

text \<open>\<^verbatim>\<open>*prevp = v\<close>\<close>

fun store_link :: "linkp \<Rightarrow> addr \<Rightarrow> ThreadArena \<times> (addr \<Rightarrow> BlockHeader) \<Rightarrow> ThreadArena \<times> (addr \<Rightarrow> BlockHeader)" where
  "store_link FreelistField v (a, h) = (a\<lparr>freelist := v\<rparr>, h)"
| "store_link (NextField p) v (a, h) = (a, h(p := (h p)\<lparr>next_f := v\<rparr>))"

text \<open>\<open>armalloc\<close> returns the pointer (0 for null) and the memory it leaves.\<close>

definition armalloc :: "size_t \<Rightarrow> libc \<Rightarrow> state \<Rightarrow> size_t \<Rightarrow> (addr \<times> state) option" where
  "armalloc A lc s0 n =
     (case get_arena A lc s0 of
        (None, s) \<Rightarrow> Some (0, s)
      | (Some a, s) \<Rightarrow>
          let aligned = ALIGN A n;
              total = aligned + hdr_size
          in (case first_fit (hdrs s) aligned FreelistField (freelist a) of
               None \<Rightarrow> None
             | Some (Some (prevp, cur)) \<Rightarrow>
                 let (a1, h1) = store_link prevp (next_f (hdrs s cur)) (a, hdrs s);
                     h2 = h1(cur := (h1 cur)\<lparr>freed := 0\<rparr>);
                     h3 = h2(cur := (h2 cur)\<lparr>next_f := 0\<rparr>)
                 in Some (cur + hdr_size, s\<lparr>arena_key := Some a1, hdrs := h3\<rparr>)
             | Some None \<Rightarrow>
                 let (rc, a1, s1) =
                       (if capacity a < offset a + total
                        then arena_expand A lc a s (offset a + total)
                        else (0, a, s))
                 in if rc \<noteq> 0 then Some (0, s1\<lparr>arena_key := Some a1\<rparr>)
                    else
                      let header = buffer a1 + offset a1;
                          h1 = (hdrs s1)(header := \<lparr>size_f = aligned, freed = 0, next_f = 0\<rparr>);
                          a2 = a1\<lparr>offset := offset a1 + total\<rparr>
                      in Some (header + hdr_size, s1\<lparr>arena_key := Some a2, hdrs := h1\<rparr>)))"

text \<open>
  Writing bytes. \<open>w q = Some c\<close> says that the byte \<open>c\<close> is written at address \<open>q\<close>.
  On the LP64 little-endian platforms above a header stored at \<open>q\<close> keeps \<open>size\<close> in
  the bytes \<open>q .. q+7\<close>, \<open>freed\<close> in \<open>q+8 .. q+11\<close> and \<open>next\<close> in
  \<open>q+16 .. q+23\<close>, least significant byte first; \<open>put_byte i c x\<close> replaces byte
  \<open>i\<close> of the word \<open>x\<close>, and \<open>store_field w f k x\<close> is the \<open>k\<close>-byte field \<open>x\<close>
  stored at \<open>f\<close> after the write.
\<close>

definition put_byte :: "nat \<Rightarrow> byte \<Rightarrow> 'a::len word \<Rightarrow> 'a word" where
  "put_byte i c x = (x AND NOT (push_bit (8 * i) 255)) OR push_bit (8 * i) (ucast c)"

definition store_field :: "(addr \<Rightarrow> byte option) \<Rightarrow> addr \<Rightarrow> nat \<Rightarrow> 'a::len word \<Rightarrow> 'a word" where
  "store_field w f k x =
     fold (\<lambda>i x. case w (f + of_nat i) of None \<Rightarrow> x | Some c \<Rightarrow> put_byte i c x) [0..<k] x"

definition store_bytes :: "(addr \<Rightarrow> byte option) \<Rightarrow> state \<Rightarrow> state" where
  "store_bytes w s =
     s\<lparr>hdrs := (\<lambda>q. \<lparr>size_f = store_field w q 8 (size_f (hdrs s q)),
                       freed = store_field w (q + 8) 4 (freed (hdrs s q)),
                       next_f = store_field w (q + 16) 8 (next_f (hdrs s q))\<rparr>),
       bytes := (\<lambda>q. case w q of None \<Rightarrow> bytes s q | Some c \<Rightarrow> c)\<rparr>"

text \<open>
  \<open>memset(p, c, n)\<close> writes \<open>c\<close> to the \<open>n\<close> bytes from \<open>p\<close>;
  \<open>memcpy(dst, src, n)\<close> writes to the \<open>n\<close> bytes from \<open>dst\<close> the payload bytes
  found from \<open>src\<close> on.
\<close>

definition memset :: "state \<Rightarrow> addr \<Rightarrow> byte \<Rightarrow> size_t \<Rightarrow> state" where
  "memset s p c n = store_bytes (\<lambda>q. if q - p < n then Some c else None) s"

definition memcpy :: "state \<Rightarrow> addr \<Rightarrow> addr \<Rightarrow> size_t \<Rightarrow> state" where
  "memcpy s dst src n =
     store_bytes (\<lambda>q. if q - dst < n then Some (bytes s (src + (q - dst))) else None) s"

definition SIZE_MAX :: size_t where
  "SIZE_MAX = - 1"

text \<open>
  \<open>in_buffer s p n\<close>: the \<open>n\<close> bytes from \<open>p\<close> lie in the buffer of the thread's
  arena. The pointer that \<open>arcalloc\<close> passes to \<open>memset\<close> points into that buffer and
  into no other object, so the call \<open>memset(ptr, 0, total)\<close> has defined behaviour
  only when \<open>in_buffer\<close> holds. When it does not, the C program writes past the end of
  the buffer (in practice it is killed, or it overwrites unrelated memory): the model
  stops there with the fault \<open>Out_of_bounds\<close>.
\<close>

definition in_buffer :: "state \<Rightarrow> addr \<Rightarrow> size_t \<Rightarrow> bool" where
  "in_buffer s p n =
     (case arena_key s of
        None \<Rightarrow> False
      | Some a \<Rightarrow> unat (buffer a) \<le> unat p \<and>
                  unat p + unat n \<le> unat (buffer a) + unat (capacity a))"

datatype fault = Out_of_bounds

text \<open>
  \<open>arcalloc\<close> returns \<open>None\<close> when \<open>armalloc\<close> does not return, \<open>Some (Inl f)\<close>
  when it stops with the fault \<open>f\<close>, and \<open>Some (Inr (ptr, s))\<close> when it returns
  \<open>ptr\<close> and leaves the memory \<open>s\<close>.
\<close>

definition arcalloc ::
  "size_t \<Rightarrow> libc \<Rightarrow> state \<Rightarrow> size_t \<Rightarrow> size_t \<Rightarrow> (fault + addr \<times> state) option" where
  "arcalloc A lc s num sz =
     (if sz \<noteq> 0 \<and> SIZE_MAX div sz < num then Some (Inr (0, s))
      else
        let total = num * sz
        in case armalloc A lc s total of
             None \<Rightarrow> None
           | Some (ptr, s1) \<Rightarrow>
               if ptr \<noteq> 0 then
                 (if in_buffer s1 ptr total then Some (Inr (ptr, memset s1 ptr 0 total))
                  else Some (Inl Out_of_bounds))
               else Some (Inr (ptr, s1)))"

definition arfree :: "size_t \<Rightarrow> libc \<Rightarrow> state \<Rightarrow> addr \<Rightarrow> state option" where
  "arfree A lc s0 ptr =
     (if ptr = 0 then Some s0
      else case get_arena A lc s0 of
             (None, s) \<Rightarrow> Some s
           | (Some a, s) \<Rightarrow>
               let header = ptr - hdr_size
               in if freed (hdrs s header) \<noteq> 0 then Some s
                  else (case freelist_insert_and_coalesce a s header of
                          None \<Rightarrow> None
                        | Some (a1, s1) \<Rightarrow> Some (s1\<lparr>arena_key := Some a1\<rparr>)))"

text \<open>
  \<open>arrealloc\<close>. Its \<open>memcpy\<close> copies the \<open>header->size\<close> bytes of the old block into
  a new block that records more; the model performs the copy without checking the two
  ranges against the buffer.
\<close>

definition arrealloc :: "size_t \<Rightarrow> libc \<Rightarrow> state \<Rightarrow> addr \<Rightarrow> size_t \<Rightarrow> (addr \<times> state) option" where
  "arrealloc A lc s0 ptr new_size =
     (case get_arena A lc s0 of
        (None, s) \<Rightarrow> Some (0, s)
      | (Some a, s) \<Rightarrow>
          if ptr = 0 then armalloc A lc s new_size
          else
            let header = ptr - hdr_size;
                aligned_new = ALIGN A new_size
            in if aligned_new \<le> size_f (hdrs s header) then
                 Some (ptr, s\<lparr>hdrs := (hdrs s)(header := (hdrs s header)\<lparr>size_f := aligned_new\<rparr>)\<rparr>)
               else
                 (case armalloc A lc s new_size of
                    None \<Rightarrow> None
                  | Some (new_ptr, s1) \<Rightarrow>
                      if new_ptr = 0 then Some (0, s1)
                      else
                        let s2 = memcpy s1 new_ptr ptr (size_f (hdrs s1 header))
                        in (case arfree A lc s2 ptr of
                              None \<Rightarrow> None
                            | Some s3 \<Rightarrow> Some (new_ptr, s3))))"

definition arreset :: "size_t \<Rightarrow> libc \<Rightarrow> state \<Rightarrow> state" where
  "arreset A lc s0 =
     (case get_arena A lc s0 of
        (None, s) \<Rightarrow> s
      | (Some a, s) \<Rightarrow> s\<lparr>arena_key := Some (a\<lparr>offset := 0, freelist := 0\<rparr>)\<rparr>)"


section \<open>Notions used to state the properties\<close>

text \<open>
  \<open>lseg h p ps q\<close>: following \<open>next\<close> pointers from \<open>p\<close> visits exactly the non-null
  headers \<open>ps\<close>, in this order, and arrives at \<open>q\<close>. \<open>flist h p ps\<close>: the free list
  that starts at \<open>p\<close> consists of the headers \<open>ps\<close> and ends with the null pointer.
\<close>

primrec lseg :: "(addr \<Rightarrow> BlockHeader) \<Rightarrow> addr \<Rightarrow> addr list \<Rightarrow> addr \<Rightarrow> bool" where
  "lseg h p [] q = (p = q)"
| "lseg h p (x # xs) q = (p = x \<and> p \<noteq> 0 \<and> lseg h (next_f (h p)) xs q)"

definition flist :: "(addr \<Rightarrow> BlockHeader) \<Rightarrow> addr \<Rightarrow> addr list \<Rightarrow> bool" where
  "flist h p ps = lseg h p ps 0"

text \<open>The test of the first-fit loop: \<^verbatim>\<open>curr->freed && curr->size >= aligned\<close>.\<close>

definition fits :: "(addr \<Rightarrow> BlockHeader) \<Rightarrow> size_t \<Rightarrow> addr \<Rightarrow> bool" where
  "fits h aligned c = (freed (h c) \<noteq> 0 \<and> aligned \<le> size_f (h c))"

text \<open>
  \<open>blk_end h c\<close> is the address just past the payload of the block whose header is
  at \<open>c\<close>, as a natural number. \<open>free_list_ok h p ps\<close>: the free list from \<open>p\<close> is
  the null-terminated list \<open>ps\<close>, every entry carries the freed flag and ends inside
  the address space, and every entry ends strictly before each later entry starts, so
  that the list is strictly increasing by address and no two entries overlap or touch.
\<close>

definition blk_end :: "(addr \<Rightarrow> BlockHeader) \<Rightarrow> addr \<Rightarrow> nat" where
  "blk_end h c = unat c + unat hdr_size + unat (size_f (h c))"

definition free_list_ok :: "(addr \<Rightarrow> BlockHeader) \<Rightarrow> addr \<Rightarrow> addr list \<Rightarrow> bool" where
  "free_list_ok h p ps =
     (flist h p ps \<and> (\<forall>c\<in>set ps. freed (h c) \<noteq> 0 \<and> blk_end h c \<le> 2 ^ 64) \<and>
      sorted_wrt (\<lambda>x y. blk_end h x < unat y) ps)"

text \<open>A block of \<open>n\<close> bytes at the non-null address \<open>p\<close> ends inside the address space.\<close>

definition in_address_space :: "addr \<Rightarrow> size_t \<Rightarrow> bool" where
  "in_address_space p n = (p \<noteq> 0 \<and> unat p + unat n \<le> 2 ^ 64)"

text \<open>\<open>x\<close> is a multiple of the alignment unit \<open>A\<close> (a power of two).\<close>

definition is_aligned :: "size_t \<Rightarrow> size_t \<Rightarrow> bool" where
  "is_aligned A x = (x AND (A - 1) = 0)"

text \<open>The arena invariant \<open>offset \<le> capacity\<close>; a thread without an arena satisfies it.\<close>

definition cap_ok :: "state \<Rightarrow> bool" where
  "cap_ok s = (case arena_key s of None \<Rightarrow> True | Some a \<Rightarrow> offset a \<le> capacity a)"

text \<open>
  Sequences of calls of the public interface by one thread. Every call comes with the
  behaviour of the C library during that call; \<open>run\<close> is \<open>None\<close> when a call does
  not return or stops with a fault.
\<close>

datatype call =
  Allocate size_t
| AllocateZeroed size_t size_t
| Reallocate addr size_t
| Free addr
| Reset

fun step :: "size_t \<Rightarrow> libc \<Rightarrow> call \<Rightarrow> state \<Rightarrow> state option" where
  "step A lc (Allocate n) s = map_option snd (armalloc A lc s n)"
| "step A lc (AllocateZeroed num sz) s =
     (case arcalloc A lc s num sz of Some (Inr (p, s')) \<Rightarrow> Some s' | _ \<Rightarrow> None)"
| "step A lc (Reallocate p n) s = map_option snd (arrealloc A lc s p n)"
| "step A lc (Free p) s = arfree A lc s p"
| "step A lc Reset s = Some (arreset A lc s)"

fun run :: "size_t \<Rightarrow> (libc \<times> call) list \<Rightarrow> state \<Rightarrow> state option" where
  "run A [] s = Some s"
| "run A ((lc, c) # cs) s = (case step A lc c s of None \<Rightarrow> None | Some s' \<Rightarrow> run A cs s')"

subsection \<open>Concrete memories and C libraries\<close>

text \<open>
  A thread that has not called the allocator yet, in zeroed memory (\<open>fresh\<close>) and in
  memory whose payload bytes are all 255 (\<open>dirty\<close>).
\<close>

definition fresh :: state where
  "fresh = \<lparr>arena_key = None, hdrs = (\<lambda>_. \<lparr>size_f = 0, freed = 0, next_f = 0\<rparr>), bytes = (\<lambda>_. 0)\<rparr>"

definition dirty :: state where
  "dirty = \<lparr>arena_key = None, hdrs = (\<lambda>_. \<lparr>size_f = 0, freed = 0, next_f = 0\<rparr>), bytes = (\<lambda>_. 255)\<rparr>"

text \<open>
  A C library whose \<open>malloc\<close> places the arena structure at 4096 and the buffer at
  65536, and whose \<open>realloc\<close> always succeeds in place (\<open>libc_ok\<close>) or always fails
  (\<open>libc_full\<close>).
\<close>

definition libc_ok :: libc where
  "libc_ok = \<lparr>malloc = (\<lambda>n. if n = 32 then 4096 else 65536), realloc = (\<lambda>p n. p)\<rparr>"

definition libc_full :: libc where
  "libc_full = \<lparr>malloc = (\<lambda>n. if n = 32 then 4096 else 65536), realloc = (\<lambda>p n. 0)\<rparr>"

text \<open>
  With \<open>A = 32\<close>: the memory after \<open>a = Allocate(100); b = Allocate(50)\<close> on \<open>fresh\<close>
  (\<open>two_live\<close>), and the memory after \<open>x = Allocate(10); y = Allocate(50);
  z = Allocate(100); Free(x); Free(z)\<close> (\<open>two_free\<close>), whose free list holds the block
  at 65536 (32 bytes) and the block at 65680 (128 bytes).
\<close>

definition two_live :: state where
  "two_live =
     \<lparr>arena_key = Some \<lparr>buffer = 65536, capacity = 5242880, offset = 240, freelist = 0\<rparr>,
      hdrs = (\<lambda>_. \<lparr>size_f = 0, freed = 0, next_f = 0\<rparr>)
         (65536 := \<lparr>size_f = 128, freed = 0, next_f = 0\<rparr>,
          65688 := \<lparr>size_f = 64, freed = 0, next_f = 0\<rparr>),
      bytes = (\<lambda>_. 0)\<rparr>"

definition two_free :: state where
  "two_free =
     \<lparr>arena_key = Some \<lparr>buffer = 65536, capacity = 5242880, offset = 296, freelist = 65536\<rparr>,
      hdrs = (\<lambda>_. \<lparr>size_f = 0, freed = 0, next_f = 0\<rparr>)
         (65536 := \<lparr>size_f = 32, freed = 1, next_f = 65680\<rparr>,
          65592 := \<lparr>size_f = 64, freed = 0, next_f = 0\<rparr>,
          65680 := \<lparr>size_f = 128, freed = 1, next_f = 0\<rparr>),
      bytes = (\<lambda>_. 0)\<rparr>"

section \<open>Auxiliary facts\<close>

lemma ALIGN_0: "ALIGN A 0 = 0"
  by (simp add: ALIGN_def)


lemma get_arena_Some: "arena_key s = Some a \<Longrightarrow> get_arena A lc s = (Some a, s)"
  by (simp add: get_arena_def)

lemma expand_loop_once:
  "expand_loop A r c =
     (if c < r then
        (if c \<noteq> 0 then (if c * 2 < r then r else c * 2)
         else (if ALIGN A r < r then r else ALIGN A r))
      else c)"
  by (subst expand_loop.simps, subst expand_loop.simps) (auto simp: Let_def GROWTH_FACTOR_def)

lemma expand_loop_ge: "r \<le> expand_loop A r c"
  by (auto simp: expand_loop_once not_less word_gt_0)

lemma lseg_append: "lseg h p (xs @ ys) q = (\<exists>m. lseg h p xs m \<and> lseg h m ys q)"
  by (induction xs arbitrary: p) auto

lemma lseg_fun: "lseg h p xs 0 \<Longrightarrow> lseg h p ys 0 \<Longrightarrow> xs = ys"
proof (induction xs arbitrary: p ys)
  case Nil
  then show ?case by (cases ys) auto
next
  case (Cons x xs)
  then show ?case by (cases ys) auto
qed

lemma flist_notin: 
  assumes "flist h (next_f (h a)) as" shows "a \<notin> set as"
proof
  assume "a \<in> set as"
  then obtain bs cs where as: "as = bs @ a # cs" by (auto simp: in_set_conv_decomp)
  with assms have "\<exists>m. lseg h (next_f (h a)) bs m \<and> lseg h m (a # cs) 0"
    by (simp add: flist_def lseg_append)
  then have "lseg h (next_f (h a)) cs 0" by auto
  with assms have "cs = as" by (auto simp: flist_def dest: lseg_fun)
  with as show False by simp
qed

lemma flist_distinct: "flist h p ps \<Longrightarrow> distinct ps"
proof (induction ps arbitrary: p)
  case Nil
  then show ?case by simp
next
  case (Cons x xs)
  from Cons.prems have "flist h (next_f (h x)) xs" by (auto simp: flist_def)
  with Cons.IH flist_notin show ?case by auto
qed

lemma first_fit_skip:
  "lseg h p xs b \<Longrightarrow> \<forall>c\<in>set xs. \<not> fits h al c \<Longrightarrow>
   first_fit h al pp p = first_fit h al (if xs = [] then pp else NextField (last xs)) b"
proof (induction xs arbitrary: p pp)
  case Nil
  then show ?case by simp
next
  case (Cons x xs)
  from Cons.prems have 1: "first_fit h al pp p = first_fit h al (NextField x) (next_f (h x))"
    by (subst first_fit.simps) (auto simp: fits_def)
  from Cons.prems have "first_fit h al (NextField x) (next_f (h x))
       = first_fit h al (if xs = [] then NextField x else NextField (last xs)) b"
    by (intro Cons.IH) auto
  with 1 show ?case by simp
qed

lemma first_fit_found:
  "lseg h p xs b \<Longrightarrow> b \<noteq> 0 \<Longrightarrow> \<forall>c\<in>set xs. \<not> fits h al c \<Longrightarrow> fits h al b \<Longrightarrow>
   first_fit h al pp p = Some (Some (if xs = [] then pp else NextField (last xs), b))"
  by (subst first_fit_skip, assumption, assumption, subst first_fit.simps) (simp add: fits_def)

lemma first_fit_none:
  "flist h p xs \<Longrightarrow> \<forall>c\<in>set xs. \<not> fits h al c \<Longrightarrow> first_fit h al pp p = Some None"
  unfolding flist_def
  by (subst first_fit_skip, assumption, assumption, subst first_fit.simps) simp

lemma first_fit_sound_aux:
  assumes "first_fit h al pp p = Some r"
  shows "\<forall>pv c. r = Some (pv, c) \<longrightarrow> c \<noteq> 0 \<and> fits h al c"
proof (rule first_fit.raw_induct[OF _ assms])
  fix ff h aligned prevp cur r
  assume 1: "\<And>h al pp p r. ff h al pp p = Some r \<Longrightarrow> \<forall>pv c. r = Some (pv, c) \<longrightarrow> c \<noteq> 0 \<and> fits h al c"
    "(if cur \<noteq> 0
        then if freed (h cur) \<noteq> 0 \<and> aligned \<le> size_f (h cur)
             then Some (Some (prevp, cur))
             else ff h aligned (NextField cur) (next_f (h cur))
        else Some None) = Some r"
  show "\<forall>pv c. r = Some (pv, c) \<longrightarrow> c \<noteq> 0 \<and> fits h aligned c"
  proof (cases "cur \<noteq> 0")
    case True
    note nz = this
    show ?thesis
    proof (cases "freed (h cur) \<noteq> 0 \<and> aligned \<le> size_f (h cur)")
      case True
      with nz 1(2) show ?thesis by (auto simp: fits_def)
    next
      case False
      with nz 1(2) have "ff h aligned (NextField cur) (next_f (h cur)) = Some r" by simp
      then show ?thesis by (rule 1(1))
    qed
  next
    case False
    with 1(2) show ?thesis by auto
  qed
qed

lemma first_fit_sound:
  "first_fit h al pp p = Some (Some (pv, c)) \<Longrightarrow> c \<noteq> 0 \<and> fits h al c"
  using first_fit_sound_aux by blast

lemma lseg_upd_notin: "u \<notin> set xs \<Longrightarrow> lseg (h(u := v)) p xs q = lseg h p xs q"
  by (induction xs arbitrary: p) auto

lemma find_pos_lseg:
  "lseg h p xs c \<Longrightarrow> \<forall>x\<in>set xs. x < block \<Longrightarrow>
   find_pos h block pv p = find_pos h block (if xs = [] then pv else last xs) c"
proof (induction xs arbitrary: p pv)
  case Nil
  then show ?case by simp
next
  case (Cons x xs)
  from Cons.prems have 1: "find_pos h block pv p = find_pos h block x (next_f (h x))"
    by (subst find_pos.simps) auto
  from Cons.prems have "find_pos h block x (next_f (h x))
       = find_pos h block (if xs = [] then x else last xs) c"
    by (intro Cons.IH) auto
  with 1 show ?case by simp
qed

lemma find_pos_terminates:
  "flist h p xs \<Longrightarrow> \<exists>r. find_pos h block pv p = Some r"
proof (induction xs arbitrary: p pv)
  case Nil
  then show ?case by (subst find_pos.simps) (simp add: flist_def)
next
  case (Cons x xs)
  from Cons.prems have nx: "flist h (next_f (h x)) xs" and px: "p = x" by (auto simp: flist_def)
  show ?case
  proof (cases "p \<noteq> 0 \<and> p < block")
    case True
    then have "find_pos h block pv p = find_pos h block p (next_f (h p))"
      by (subst find_pos.simps) simp
    with Cons.IH[OF nx] px show ?thesis by simp
  next
    case False
    then show ?thesis by (subst find_pos.simps) auto
  qed
qed

lemma flist_cut:
  "flist h p xs \<Longrightarrow> \<exists>ys. flist (h(b := (h b)\<lparr>next_f := 0\<rparr>)) p ys"
proof (induction xs arbitrary: p)
  case Nil
  then have "flist (h(b := (h b)\<lparr>next_f := 0\<rparr>)) p []" by (simp add: flist_def)
  then show ?case ..
next
  case (Cons x xs)
  from Cons.prems have nx: "flist h (next_f (h x)) xs" and px: "p = x" "x \<noteq> 0" by (auto simp: flist_def)
  show ?case
  proof (cases "x = b")
    case True
    with px have "flist (h(b := (h b)\<lparr>next_f := 0\<rparr>)) p [x]" by (simp add: flist_def)
    then show ?thesis ..
  next
    case False
    from Cons.IH[OF nx] obtain ys where "flist (h(b := (h b)\<lparr>next_f := 0\<rparr>)) (next_f (h x)) ys" ..
    with False px have "flist (h(b := (h b)\<lparr>next_f := 0\<rparr>)) p (x # ys)" by (simp add: flist_def)
    then show ?thesis ..
  qed
qed


lemma armalloc_found:
  assumes a: "arena_key s = Some a"
    and ff: "first_fit (hdrs s) (ALIGN A n) FreelistField (freelist a) = Some (Some (pp, b))"
  shows "armalloc A lc s n =
     Some (b + hdr_size,
       s\<lparr>arena_key := Some (fst (store_link pp (next_f (hdrs s b)) (a, hdrs s))),
         hdrs := (snd (store_link pp (next_f (hdrs s b)) (a, hdrs s)))
            (b := (snd (store_link pp (next_f (hdrs s b)) (a, hdrs s)) b)\<lparr>freed := 0, next_f := 0\<rparr>)\<rparr>)"
  using a ff by (simp add: armalloc_def get_arena_Some Let_def split: prod.splits)

lemma armalloc_reuses_first_fit:
  assumes a: "arena_key s = Some a"
    and fl: "flist (hdrs s) (freelist a) (xs @ b # ys)"
    and fr: "\<forall>c\<in>set (xs @ b # ys). freed (hdrs s c) \<noteq> 0"
    and small: "\<forall>c\<in>set xs. size_f (hdrs s c) < ALIGN A n"
    and big: "ALIGN A n \<le> size_f (hdrs s b)"
  shows "\<exists>s' a'. armalloc A lc s n = Some (b + hdr_size, s') \<and> arena_key s' = Some a' \<and>
     flist (hdrs s') (freelist a') (xs @ ys) \<and>
     freed (hdrs s' b) = 0 \<and> next_f (hdrs s' b) = 0 \<and> size_f (hdrs s' b) = size_f (hdrs s b) \<and>
     buffer a' = buffer a \<and> capacity a' = capacity a \<and> offset a' = offset a \<and>
     bytes s' = bytes s \<and>
     (\<forall>c. c \<noteq> b \<longrightarrow> size_f (hdrs s' c) = size_f (hdrs s c) \<and> freed (hdrs s' c) = freed (hdrs s c))"
proof -
  let ?h = "hdrs s"
  from fl have dist: "distinct (xs @ b # ys)" by (rule flist_distinct)
  from fl obtain m where m: "lseg ?h (freelist a) xs m" "lseg ?h m (b # ys) 0"
    by (auto simp: flist_def lseg_append)
  then have mb: "m = b" "b \<noteq> 0" and ys: "lseg ?h (next_f (?h b)) ys 0" by auto
  from small have nofit: "\<forall>c\<in>set xs. \<not> fits ?h (ALIGN A n) c" by (auto simp: fits_def)
  from fr big have fit: "fits ?h (ALIGN A n) b" by (simp add: fits_def)
  from m(1) mb nofit fit
  have ff: "first_fit ?h (ALIGN A n) FreelistField (freelist a)
       = Some (Some (if xs = [] then FreelistField else NextField (last xs), b))"
    by (intro first_fit_found) auto
  show ?thesis
  proof (cases xs rule: rev_cases)
    case Nil
    with m(1) mb have hd: "freelist a = b" by simp
    from dist have "b \<notin> set ys" by simp
    with ys have "lseg (?h(b := (?h b)\<lparr>freed := 0, next_f := 0\<rparr>)) (next_f (?h b)) ys 0"
      by (simp add: lseg_upd_notin)
    with Nil show ?thesis
      by (simp add: armalloc_found[OF a ff[unfolded Nil, simplified]] flist_def)
  next
    case (snoc xs' l)
    from m(1) mb snoc have seg: "lseg ?h (freelist a) xs' l" and l: "l \<noteq> 0" "next_f (?h l) = b"
      by (auto simp: lseg_append)
    from dist snoc have d: "l \<notin> set xs'" "b \<notin> set xs'" "l \<noteq> b" "l \<notin> set ys" "b \<notin> set ys"
      by auto
    let ?h' = "?h(l := (?h l)\<lparr>next_f := next_f (?h b)\<rparr>, b := (?h b)\<lparr>freed := 0, next_f := 0\<rparr>)"
    from seg d have 1: "lseg ?h' (freelist a) xs' l" by (simp add: lseg_upd_notin)
    from ys d have 2: "lseg ?h' (next_f (?h b)) ys 0" by (simp add: lseg_upd_notin)
    from 1 2 l d have "lseg ?h' (freelist a) (xs' @ l # ys) 0"
      by (auto simp: lseg_append)
    with snoc d show ?thesis
      by (simp add: armalloc_found[OF a ff[unfolded snoc, simplified]] flist_def)
  qed
qed

lemmas api_defs = armalloc_def arfree_def get_arena_def freelist_insert_and_coalesce_def
  coalesce_next_def coalesce_prev_def arena_expand_def ALIGN_def hdr_size_def
  sizeof_ThreadArena_def MIN_THREAD_STACK_def Let_def

lemma in_space_offset:
  assumes "in_address_space p n" "k < n" 
  shows "p + k \<noteq> 0"
proof -
  from assms have "unat p + unat k < 2 ^ LENGTH(64)" and "p \<noteq> 0"
    by (auto simp: in_address_space_def word_less_nat_alt)
  then have "unat (p + k) = unat p + unat k" by (simp only: unat_add_lem)
  moreover from \<open>p \<noteq> 0\<close> have "unat p \<noteq> 0" by (simp add: unat_eq_0)
  ultimately show ?thesis by (metis add_is_0 unat_eq_0)
qed

lemma reuse_scenario:
  assumes A: "A = 8 \<or> A = 16 \<or> A = 32"
    and "arena_key s0 = None" "malloc lc0 sizeof_ThreadArena \<noteq> 0"
    and sp: "in_address_space (malloc lc0 (ALIGN A MIN_THREAD_STACK)) (ALIGN A MIN_THREAD_STACK)"
  shows "\<exists>pa pb pc s1 s2 s3 s4 a3 a4.
     armalloc A lc0 s0 100 = Some (pa, s1) \<and> armalloc A lc1 s1 50 = Some (pb, s2) \<and>
     arfree A lc2 s2 pa = Some s3 \<and> armalloc A lc3 s3 80 = Some (pc, s4) \<and>
     pa = malloc lc0 (ALIGN A MIN_THREAD_STACK) + hdr_size \<and>
     pb = pa + ALIGN A 100 + hdr_size \<and> pa \<noteq> 0 \<and> pb \<noteq> 0 \<and> pb \<noteq> pa \<and> pc = pa \<and>
     arena_key s3 = Some a3 \<and> freelist a3 = pa - hdr_size \<and>
     freed (hdrs s3 (pa - hdr_size)) \<noteq> 0 \<and> next_f (hdrs s3 (pa - hdr_size)) = 0 \<and>
     freed (hdrs s3 (pb - hdr_size)) = 0 \<and>
     arena_key s4 = Some a4 \<and> freelist a4 = 0 \<and> offset a4 = offset a3 \<and>
     freed (hdrs s4 (pa - hdr_size)) = 0 \<and> size_f (hdrs s4 (pa - hdr_size)) = ALIGN A 100 \<and>
     ALIGN A 80 < ALIGN A 100"
proof -
  from A have cap: "ALIGN A MIN_THREAD_STACK = 5242880"
    by (auto simp: ALIGN_def MIN_THREAD_STACK_def)
  from sp have nz: "malloc lc0 5242880 \<noteq> 0" "malloc lc0 5242880 + 24 \<noteq> 0"
    "malloc lc0 5242880 + 152 \<noteq> 0" "malloc lc0 5242880 + 160 \<noteq> 0" "malloc lc0 5242880 + 176 \<noteq> 0"
    unfolding cap using in_space_offset[of _ 5242880 24] in_space_offset[of _ 5242880 152]
      in_space_offset[of _ 5242880 160] in_space_offset[of _ 5242880 176]
    by (auto simp: in_address_space_def)
  note nz = nz nz[unfolded add.commute[of "malloc lc0 5242880"]]
  from A show ?thesis
  proof (elim disjE)
    assume "A = 8"
    with assms(2,3) nz show ?thesis
      by (simp add: api_defs first_fit.simps find_pos.simps)
  next
    assume "A = 16"
    with assms(2,3) nz show ?thesis
      by (simp add: api_defs first_fit.simps find_pos.simps)
  next
    assume "A = 32"
    with assms(2,3) nz show ?thesis
      by (simp add: api_defs first_fit.simps find_pos.simps)
  qed
qed

lemma insert_sets_freed:
  assumes "freelist_insert_and_coalesce a s block = Some (a1, s1)"
  shows "freed (hdrs s1 block) = 1 \<and> bytes s1 = bytes s \<and> arena_key s1 = arena_key s"
  using assms
  by (auto simp: freelist_insert_and_coalesce_def coalesce_next_def coalesce_prev_def Let_def
      split: option.splits prod.splits if_splits)

lemma arfree_null: "arfree A lc s 0 = Some s"
  by (simp add: arfree_def)

lemma arfree_twice:
  assumes "arena_key s \<noteq> None" and "arfree A lc s p = Some s1"
  shows "arfree A lc' s1 p = Some s1"
proof -
  from assms(1) obtain a where a: "arena_key s = Some a" by auto
  show ?thesis
  proof (cases "p = 0")
    case True
    then show ?thesis by (simp add: arfree_def)
  next
    case False
    note p = this
    show ?thesis
    proof (cases "freed (hdrs s (p - hdr_size)) \<noteq> 0")
      case True
      with p a assms(2) have "s1 = s" by (simp add: arfree_def get_arena_Some)
      with p a True show ?thesis by (simp add: arfree_def get_arena_Some)
    next
      case False
      with p a assms(2) obtain a1 s' where
        ins: "freelist_insert_and_coalesce a s (p - hdr_size) = Some (a1, s')"
        and s1: "s1 = s'\<lparr>arena_key := Some a1\<rparr>"
        by (auto simp: arfree_def get_arena_Some Let_def split: option.splits)
      from insert_sets_freed[OF ins] s1 have "freed (hdrs s1 (p - hdr_size)) = 1" by simp
      with p s1 show ?thesis by (simp add: arfree_def get_arena_Some)
    qed
  qed
qed

lemma lseg_next_cong:
  "\<forall>x. next_f (h' x) = next_f (h x) \<Longrightarrow> lseg h' p xs q = lseg h p xs q"
  by (induction xs arbitrary: p) auto

lemma insert_returns:
  assumes "flist (hdrs s) (freelist a) ps"
  shows "\<exists>r. freelist_insert_and_coalesce a s block = Some r"
proof -
  let ?h1 = "(hdrs s)(block := (hdrs s block)\<lparr>freed := 1\<rparr>)"
  from assms have "flist ?h1 (freelist a) ps"
    by (simp add: flist_def lseg_next_cong[of ?h1 "hdrs s"])
  from flist_cut[OF this, of block] obtain ys
    where "flist (?h1(block := (?h1 block)\<lparr>next_f := 0\<rparr>)) (freelist a) ys" ..
  from find_pos_terminates[OF this, of block 0] obtain r
    where "find_pos (?h1(block := (?h1 block)\<lparr>next_f := 0\<rparr>)) block 0 (freelist a) = Some r" ..
  then show ?thesis
    by (cases r) (simp add: freelist_insert_and_coalesce_def Let_def)
qed

lemma arfree_returns:
  assumes "arena_key s = Some a" "flist (hdrs s) (freelist a) ps"
  shows "\<exists>s1. arfree A lc s p = Some s1"
  using assms insert_returns[OF assms(2), where block = "p - hdr_size"]
  by (auto simp: arfree_def get_arena_Some Let_def split: option.splits)

lemma store_field_none:
  "(\<And>i. i < k \<Longrightarrow> w (f + of_nat i) = None) \<Longrightarrow> store_field w f k x = x"
proof (induction k)
  case 0
  then show ?case by (simp add: store_field_def)
next
  case (Suc k)
  then have "store_field w f k x = x" by simp
  moreover from Suc.prems have "w (f + of_nat k) = None" by simp
  ultimately show ?case by (simp add: store_field_def)
qed

lemma outside_range:
  fixes f p n :: "64 word"
  assumes d: "unat f + k \<le> unat p \<or> unat p + unat n \<le> unat f"
    and f: "unat f + k \<le> 2 ^ 64" and p: "unat p + unat n \<le> 2 ^ 64" and i: "i < k"
  shows "\<not> f + of_nat i - p < n"
proof -
  from f i have ik: "unat f + i < 2 ^ 64" by simp
  then have "unat (of_nat i :: 64 word) = i" by (simp add: unat_of_nat)
  with ik have fi: "unat (f + of_nat i) = unat f + i" by (simp add: unat_plus_if_size word_size)
  have "unat n \<le> unat (f + of_nat i - p)"
    using d p i by (auto simp: unat_sub_if_size word_size fi)
  then show ?thesis by (simp add: word_less_nat_alt)
qed

lemma store_field_outside:
  fixes f p n :: "64 word"
  assumes "unat f + k \<le> unat p \<or> unat p + unat n \<le> unat f"
    "unat f + k \<le> 2 ^ 64" "unat p + unat n \<le> 2 ^ 64"
  shows "store_field (\<lambda>q. if q - p < n then Some (g q) else None) f k x = x"
  by (rule store_field_none) (simp add: outside_range[OF assms])

lemma store_bytes_outside:
  fixes q p n :: "64 word"
  assumes "unat q + 24 \<le> unat p \<or> unat p + unat n \<le> unat q"
    "unat q + 24 \<le> 2 ^ 64" "unat p + unat n \<le> 2 ^ 64"
  shows "hdrs (store_bytes (\<lambda>q. if q - p < n then Some (g q) else None) s) q = hdrs s q"
proof -
  let ?w = "\<lambda>q. if q - p < n then Some (g q) else None"
  from assms(2) have u8: "unat (q + 8) = unat q + 8" and u16: "unat (q + 16) = unat q + 16"
    by (simp_all add: unat_plus_if_size word_size)
  have "store_field ?w q 8 (size_f (hdrs s q)) = size_f (hdrs s q)"
    using assms by (intro store_field_outside) auto
  moreover have "store_field ?w (q + 8) 4 (freed (hdrs s q)) = freed (hdrs s q)"
    using assms u8 by (intro store_field_outside) auto
  moreover have "store_field ?w (q + 16) 8 (next_f (hdrs s q)) = next_f (hdrs s q)"
    using assms u16 by (intro store_field_outside) auto
  ultimately show ?thesis by (simp add: store_bytes_def)
qed

lemma memset_simps:
  "arena_key (memset s p c n) = arena_key s"
  "bytes (memset s p c n) = (\<lambda>q. if q - p < n then c else bytes s q)"
  by (auto simp: memset_def store_bytes_def)

lemma memcpy_simps:
  "arena_key (memcpy s d r n) = arena_key s"
  "bytes (memcpy s d r n) = (\<lambda>q. if q - d < n then bytes s (r + (q - d)) else bytes s q)"
  by (auto simp: memcpy_def store_bytes_def)

lemma hdrs_memset_outside:
  fixes q p n :: "64 word"
  assumes "unat q + 24 \<le> unat p \<or> unat p + unat n \<le> unat q"
    "unat q + 24 \<le> 2 ^ 64" "unat p + unat n \<le> 2 ^ 64"
  shows "hdrs (memset s p c n) q = hdrs s q"
  unfolding memset_def by (rule store_bytes_outside[OF assms])

lemma hdrs_memcpy_outside:
  fixes q d n :: "64 word"
  assumes "unat q + 24 \<le> unat d \<or> unat d + unat n \<le> unat q"
    "unat q + 24 \<le> 2 ^ 64" "unat d + unat n \<le> 2 ^ 64"
  shows "hdrs (memcpy s d r n) q = hdrs s q"
  unfolding memcpy_def by (rule store_bytes_outside[OF assms])

lemma put_byte_zero: "put_byte i 0 x = x AND NOT (push_bit (8 * i) 255)"
  by (simp add: put_byte_def)

lemma mask_next_byte:
  "(mask (8 * Suc k) :: 'a::len word) = mask (8 * k) OR push_bit (8 * k) 255"
proof -
  have "(255 :: 'a word) = mask 8" by (simp add: mask_eq_exp_minus_1)
  then show ?thesis
    by (auto simp: bit_eq_iff bit_simps)
qed

lemma store_field_zero_aux:
  "(\<And>i. i < k \<Longrightarrow> w (f + of_nat i) = Some 0) \<Longrightarrow> store_field w f k x = x AND NOT (mask (8 * k))"
proof (induction k)
  case 0
  then show ?case by (simp add: store_field_def)
next
  case (Suc k)
  then have "store_field w f k x = x AND NOT (mask (8 * k))" by simp
  moreover from Suc.prems have "w (f + of_nat k) = Some 0" by simp
  ultimately have "store_field w f (Suc k) x = (x AND NOT (mask (8 * k))) AND NOT (push_bit (8 * k) 255)"
    by (simp add: store_field_def put_byte_zero)
  also have "\<dots> = x AND NOT (mask (8 * Suc k))"
    unfolding mask_next_byte by (simp add: and.assoc)
  finally show ?case .
qed

lemma store_field_zero:
  fixes x :: "'a::len word"
  assumes "\<And>i. i < k \<Longrightarrow> w (f + of_nat i) = Some 0" "LENGTH('a) \<le> 8 * k"
  shows "store_field w f k x = 0"
proof -
  from assms(2) have "(mask (8 * k) :: 'a word) = - 1"
    by (auto simp: bit_eq_iff bit_simps)
  with store_field_zero_aux[of k w f x, OF assms(1)] show ?thesis by simp
qed

lemma inside_range:
  fixes f p n :: "64 word"
  assumes "unat p \<le> unat f" "unat f + k \<le> unat p + unat n" "unat p + unat n \<le> 2 ^ 64" "i < k"
  shows "f + of_nat i - p < n"
proof -
  from assms have ik: "unat f + i < 2 ^ 64" by simp
  then have "unat (of_nat i :: 64 word) = i" by (simp add: unat_of_nat)
  with ik have fi: "unat (f + of_nat i) = unat f + i" by (simp add: unat_plus_if_size word_size)
  have "unat (f + of_nat i - p) < unat n"
    using assms by (auto simp: unat_sub_if_size word_size fi)
  then show ?thesis by (simp add: word_less_nat_alt)
qed

lemma hdrs_memset_inside:
  fixes q p n :: "64 word"
  assumes "unat p \<le> unat q" "unat q + 24 \<le> unat p + unat n" "unat p + unat n \<le> 2 ^ 64"
  shows "hdrs (memset s p 0 n) q = \<lparr>size_f = 0, freed = 0, next_f = 0\<rparr>"
proof -
  let ?w = "\<lambda>q. if q - p < n then Some (0 :: byte) else None"
  from assms have u8: "unat (q + 8) = unat q + 8" and u16: "unat (q + 16) = unat q + 16"
    by (simp_all add: unat_plus_if_size word_size)
  have "\<And>i. i < 8 \<Longrightarrow> q + of_nat i - p < n"
    using assms by (intro inside_range[where k = 8]) auto
  then have "store_field ?w q 8 (size_f (hdrs s q)) = 0"
    by (intro store_field_zero) simp_all
  moreover have "\<And>i. i < 4 \<Longrightarrow> q + 8 + of_nat i - p < n"
    using assms u8 by (intro inside_range[where k = 4]) auto
  then have "store_field ?w (q + 8) 4 (freed (hdrs s q)) = 0"
    by (intro store_field_zero) simp_all
  moreover have "\<And>i. i < 8 \<Longrightarrow> q + 16 + of_nat i - p < n"
    using assms u16 by (intro inside_range[where k = 8]) auto
  then have "store_field ?w (q + 16) 8 (next_f (hdrs s q)) = 0"
    by (intro store_field_zero) simp_all
  ultimately show ?thesis by (simp add: memset_def store_bytes_def)
qed

lemma arcalloc_overflow:
  "sz \<noteq> 0 \<and> SIZE_MAX div sz < num \<Longrightarrow> arcalloc A lc s num sz = Some (Inr (0, s))"
  by (simp add: arcalloc_def)

lemma overflow_check_exact:
  "(sz \<noteq> 0 \<and> SIZE_MAX div sz < num) = (2 ^ 64 \<le> unat num * unat sz)"
proof (cases "sz = 0")
  case True
  then show ?thesis by simp
next
  case False
  then have pos: "0 < unat sz" by (simp add: unat_gt_0)
  have "SIZE_MAX div sz < num \<longleftrightarrow> (2 ^ 64 - 1) div unat sz < unat num"
    by (simp add: word_less_nat_alt unat_div SIZE_MAX_def unsigned_minus_1_eq_mask mask_eq_exp_minus_1)
  also have "\<dots> \<longleftrightarrow> 2 ^ 64 - 1 < unat num * unat sz"
    using pos by (simp add: div_less_iff_less_mult)
  also have "\<dots> \<longleftrightarrow> 2 ^ 64 \<le> unat num * unat sz" by auto
  finally show ?thesis using False by simp
qed


lemma arcalloc_ok:
  assumes "\<not> (sz \<noteq> 0 \<and> SIZE_MAX div sz < num)"
  shows "arcalloc A lc s num sz =
     (case armalloc A lc s (num * sz) of
        None \<Rightarrow> None
      | Some (p, s1) \<Rightarrow>
          if p = 0 then Some (Inr (0, s1))
          else if in_buffer s1 p (num * sz) then Some (Inr (p, memset s1 p 0 (num * sz)))
          else Some (Inl Out_of_bounds))"
  using assms by (auto simp: arcalloc_def Let_def split: option.splits)

lemma arcalloc_zero_fills:
  assumes ok: "\<not> (sz \<noteq> 0 \<and> SIZE_MAX div sz < num)"
    and m: "armalloc A lc s (num * sz) = Some (p, s1)" and p: "p \<noteq> 0"
    and inb: "in_buffer s1 p (num * sz)" and sp: "unat p + unat (num * sz) \<le> 2 ^ 64"
  shows "\<exists>s2. arcalloc A lc s num sz = Some (Inr (p, s2)) \<and> arena_key s2 = arena_key s1 \<and>
     (\<forall>i. i < num * sz \<longrightarrow> bytes s2 (p + i) = 0) \<and>
     (\<forall>q. \<not> q - p < num * sz \<longrightarrow> bytes s2 q = bytes s1 q) \<and>
     (\<forall>q. (unat q + 24 \<le> unat p \<or> unat p + unat (num * sz) \<le> unat q) \<and> unat q + 24 \<le> 2 ^ 64 \<longrightarrow>
        hdrs s2 q = hdrs s1 q) \<and>
     (\<forall>q. unat p \<le> unat q \<and> unat q + 24 \<le> unat p + unat (num * sz) \<longrightarrow>
        hdrs s2 q = \<lparr>size_f = 0, freed = 0, next_f = 0\<rparr>)"
proof -
  from arcalloc_ok[OF ok, of A lc s] m p inb
  have "arcalloc A lc s num sz = Some (Inr (p, memset s1 p 0 (num * sz)))" by simp
  with sp show ?thesis
    by (simp add: memset_simps hdrs_memset_outside hdrs_memset_inside)
qed

lemma zero_fill_clears_absorbed_header:
  "\<exists>s1 s2 s3 s4 s5.
     armalloc 32 libc_ok fresh 100 = Some (65560, s1) \<and>
     armalloc 32 libc_ok s1 100 = Some (65712, s2) \<and>
     arfree 32 libc_ok s2 65560 = Some s3 \<and> arfree 32 libc_ok s3 65712 = Some s4 \<and>
     hdrs s4 65536 = \<lparr>size_f = 280, freed = 1, next_f = 0\<rparr> \<and>
     hdrs s4 65688 = \<lparr>size_f = 128, freed = 1, next_f = 0\<rparr> \<and>
     arcalloc 32 libc_ok s4 1 256 = Some (Inr (65560, s5)) \<and>
     hdrs s5 65536 = \<lparr>size_f = 280, freed = 0, next_f = 0\<rparr> \<and>
     hdrs s5 65688 = \<lparr>size_f = 0, freed = 0, next_f = 0\<rparr>"
  by (simp add: arcalloc_def api_defs first_fit.simps find_pos.simps fresh_def libc_ok_def
      SIZE_MAX_def in_buffer_def hdrs_memset_outside hdrs_memset_inside)

lemma arrealloc_shrink:
  assumes "arena_key s = Some a" "p \<noteq> 0" "ALIGN A n \<le> size_f (hdrs s (p - hdr_size))"
  shows "arrealloc A lc s p n =
     Some (p, s\<lparr>hdrs := (hdrs s)(p - hdr_size := (hdrs s (p - hdr_size))\<lparr>size_f := ALIGN A n\<rparr>)\<rparr>)"
  using assms by (simp add: arrealloc_def get_arena_Some Let_def)

lemma armalloc_growth_fails:
  assumes a: "arena_key s = Some a"
    and fl: "flist (hdrs s) (freelist a) ps"
    and nofit: "\<forall>c\<in>set ps. \<not> fits (hdrs s) (ALIGN A n) c"
    and full: "capacity a < offset a + (ALIGN A n + hdr_size)"
    and fail: "realloc lc (buffer a) (expand_loop A (offset a + (ALIGN A n + hdr_size)) (capacity a)) = 0"
  shows "armalloc A lc s n = Some (0, s)"
  using a full fail first_fit_none[OF fl nofit, of FreelistField]
  by (simp add: armalloc_def get_arena_Some Let_def arena_expand_def)

lemma arrealloc_growth_fails:
  assumes a: "arena_key s = Some a" and p: "p \<noteq> 0"
    and grow: "size_f (hdrs s (p - hdr_size)) < ALIGN A n"
    and fl: "flist (hdrs s) (freelist a) ps"
    and nofit: "\<forall>c\<in>set ps. \<not> fits (hdrs s) (ALIGN A n) c"
    and full: "capacity a < offset a + (ALIGN A n + hdr_size)"
    and fail: "realloc lc (buffer a) (expand_loop A (offset a + (ALIGN A n + hdr_size)) (capacity a)) = 0"
  shows "arrealloc A lc s p n = Some (0, s)"
  using a p grow armalloc_growth_fails[OF a fl nofit full fail]
  by (simp add: arrealloc_def get_arena_Some Let_def not_le[symmetric])

lemma and_not_mask_diff:
  fixes y :: "'a::len word"
  shows "y AND NOT (mask k) = y - (y AND mask k)"
proof -
  have "NOT y AND (y AND mask k) = 0"
    by (simp add: bit_eq_iff bit_simps)
  then have "y - (y AND mask k) = y AND NOT (y AND mask k)"
    by (rule disjunctive_diff_eq_and_not)
  also have "\<dots> = y AND NOT (mask k)"
    by (auto simp: bit_eq_iff bit_simps)
  finally show ?thesis by simp
qed

lemma unat_ALIGN:
  assumes k: "k < 64" and nw: "unat n + 2 ^ k - 1 < 2 ^ 64"
  shows "unat (ALIGN (2 ^ k) n) = (unat n + 2 ^ k - 1) div 2 ^ k * 2 ^ k"
proof -
  let ?y = "n + 2 ^ k - 1 :: 64 word"
  have m: "(2 ^ k - 1 :: 64 word) = mask k" by (simp add: mask_eq_exp_minus_1)
  have "uint (mask k :: 64 word) = 2 ^ k - 1"
    using k unfolding uint_mask_eq by (simp add: min_def mask_eq_exp_minus_1)
  then have um: "unat (mask k :: 64 word) = 2 ^ k - 1"
    by (simp add: unat_eq_nat_uint nat_diff_distrib nat_power_eq)
  have yy: "?y = n + mask k" by (simp add: m[symmetric])
  have "unat n + unat (mask k :: 64 word) < 2 ^ LENGTH(64)" using nw um by simp
  then have "unat (n + mask k) = unat n + unat (mask k :: 64 word)"
    by (simp only: unat_add_lem)
  then have uy: "unat ?y = unat n + 2 ^ k - 1"
    unfolding yy um by simp
  have "ALIGN (2 ^ k) n = ?y - (?y AND mask k)"
    by (simp add: ALIGN_def m and_not_mask_diff)
  moreover have "?y AND mask k \<le> ?y" by (simp add: word_and_le2)
  ultimately have "unat (ALIGN (2 ^ k) n) = unat ?y - unat (?y AND mask k)"
    by (simp add: unat_sub)
  also have "unat (?y AND mask k) = unat ?y mod 2 ^ k"
  proof -
    have "unat (?y AND mask k) = unat (take_bit k ?y)" by (simp only: take_bit_eq_mask)
    also have "\<dots> = take_bit k (unat ?y)" by (simp only: unsigned_take_bit_eq)
    also have "\<dots> = unat ?y mod 2 ^ k" by (simp only: take_bit_eq_mod)
    finally show ?thesis .
  qed
  also have "unat ?y - unat ?y mod 2 ^ k = unat ?y div 2 ^ k * 2 ^ k"
    by (simp add: minus_mod_eq_div_mult)
  finally show ?thesis by (simp add: uy)
qed

lemma ALIGN_ge:
  assumes k: "k < 64" and nw: "unat n + 2 ^ k - 1 < 2 ^ 64"
  shows "n \<le> ALIGN (2 ^ k) n"
proof -
  have "unat n \<le> (unat n + 2 ^ k - 1) div 2 ^ k * 2 ^ k"
  proof -
    have "(unat n + 2 ^ k - 1) mod 2 ^ k < (2::nat) ^ k" by simp
    then have "(unat n + 2 ^ k - 1) mod 2 ^ k \<le> (2::nat) ^ k - 1" by linarith
    moreover have "(unat n + 2 ^ k - 1) div 2 ^ k * 2 ^ k = (unat n + 2 ^ k - 1) - (unat n + 2 ^ k - 1) mod 2 ^ k"
      by (simp add: minus_mod_eq_div_mult)
    moreover have "(1::nat) \<le> 2 ^ k" by simp
    ultimately show ?thesis by linarith
  qed
  then show ?thesis by (simp add: word_le_nat_alt unat_ALIGN[OF assms])
qed

lemma ALIGN_aligned: "ALIGN A x AND (A - 1) = 0"
  by (simp add: ALIGN_def and.assoc)

lemma get_arena_result:
  assumes "get_arena A lc s = (r, s1)"
  shows "arena_key s1 = r \<and> hdrs s1 = hdrs s \<and> bytes s1 = bytes s \<and>
         (r = None \<longrightarrow> s1 = s) \<and>
         (arena_key s \<noteq> None \<longrightarrow> s1 = s) \<and>
         (arena_key s = None \<longrightarrow> (\<forall>a. r = Some a \<longrightarrow> offset a = 0 \<and> freelist a = 0 \<and>
              capacity a = ALIGN A MIN_THREAD_STACK \<and> buffer a = malloc lc (ALIGN A MIN_THREAD_STACK)
              \<and> buffer a \<noteq> 0))"
  using assms by (auto simp: get_arena_def Let_def split: option.splits if_splits)

lemma get_arena_cap_ok:
  assumes "get_arena A lc s = (r, s1)" "cap_ok s"
  shows "cap_ok s1"
  using assms by (auto simp: get_arena_def cap_ok_def Let_def split: option.splits if_splits)

lemma store_link_fields:
  "size_f (snd (store_link pp v (a, h)) c) = size_f (h c)"
  "freed (snd (store_link pp v (a, h)) c) = freed (h c)"
  "offset (fst (store_link pp v (a, h))) = offset a"
  "capacity (fst (store_link pp v (a, h))) = capacity a"
  "buffer (fst (store_link pp v (a, h))) = buffer a"
  by (cases pp; simp)+

lemma armalloc_cases:
  assumes "armalloc A lc s0 n = Some (p, s')"
  obtains (no_arena) "get_arena A lc s0 = (None, s0)" "p = 0" "s' = s0"
  | (reuse) a s pp cur where "get_arena A lc s0 = (Some a, s)"
      "first_fit (hdrs s) (ALIGN A n) FreelistField (freelist a) = Some (Some (pp, cur))"
      "p = cur + hdr_size"
      "s' = s\<lparr>arena_key := Some (fst (store_link pp (next_f (hdrs s cur)) (a, hdrs s))),
         hdrs := (snd (store_link pp (next_f (hdrs s cur)) (a, hdrs s)))
            (cur := (snd (store_link pp (next_f (hdrs s cur)) (a, hdrs s)) cur)\<lparr>freed := 0, next_f := 0\<rparr>)\<rparr>"
  | (bump) a s where "get_arena A lc s0 = (Some a, s)"
      "first_fit (hdrs s) (ALIGN A n) FreelistField (freelist a) = Some None"
      "\<not> capacity a < offset a + (ALIGN A n + hdr_size)"
      "p = buffer a + offset a + hdr_size"
      "s' = s\<lparr>arena_key := Some (a\<lparr>offset := offset a + (ALIGN A n + hdr_size)\<rparr>),
              hdrs := (hdrs s)(buffer a + offset a := \<lparr>size_f = ALIGN A n, freed = 0, next_f = 0\<rparr>)\<rparr>"
  | (grow_fail) a s where "get_arena A lc s0 = (Some a, s)"
      "first_fit (hdrs s) (ALIGN A n) FreelistField (freelist a) = Some None"
      "capacity a < offset a + (ALIGN A n + hdr_size)"
      "realloc lc (buffer a) (expand_loop A (offset a + (ALIGN A n + hdr_size)) (capacity a)) = 0"
      "p = 0" "s' = s"
  | (grow_ok) a s nb nc where "get_arena A lc s0 = (Some a, s)"
      "first_fit (hdrs s) (ALIGN A n) FreelistField (freelist a) = Some None"
      "capacity a < offset a + (ALIGN A n + hdr_size)"
      "nc = expand_loop A (offset a + (ALIGN A n + hdr_size)) (capacity a)"
      "nb = realloc lc (buffer a) nc" "nb \<noteq> 0"
      "p = nb + offset a + hdr_size"
      "s' = s\<lparr>arena_key := Some (a\<lparr>buffer := nb, capacity := nc, offset := offset a + (ALIGN A n + hdr_size)\<rparr>),
              hdrs := (moved (buffer a) nb (min (capacity a) nc) (hdrs s))
                 (nb + offset a := \<lparr>size_f = ALIGN A n, freed = 0, next_f = 0\<rparr>),
              bytes := moved (buffer a) nb (min (capacity a) nc) (bytes s)\<rparr>"
proof -
  obtain r s where ga: "get_arena A lc s0 = (r, s)" by (cases "get_arena A lc s0")
  note gr = get_arena_result[OF ga]
  show ?thesis
  proof (cases r)
    case None
    with ga gr assms show ?thesis by (intro no_arena) (auto simp: armalloc_def)
  next
    case (Some a)
    note ra = this
    show ?thesis
    proof (cases "first_fit (hdrs s) (ALIGN A n) FreelistField (freelist a)")
      case None
      with ga ra assms show ?thesis by (simp add: armalloc_def Let_def)
    next
      case (Some found)
      note ff = this
      show ?thesis
      proof (cases found)
        case (Some pc)
        obtain pp cur where pc: "pc = (pp, cur)" by (cases pc)
        with Some ff ga ra assms show ?thesis
          by (intro reuse[of a s pp cur]) (auto simp: armalloc_def Let_def split: prod.splits)
      next
        case None
        note nf = this
        show ?thesis
        proof (cases "capacity a < offset a + (ALIGN A n + hdr_size)")
          case False
          with nf ff ga ra assms show ?thesis
            by (intro bump[of a s]) (auto simp: armalloc_def Let_def)
        next
          case True
          note full = this
          show ?thesis
          proof (cases "realloc lc (buffer a) (expand_loop A (offset a + (ALIGN A n + hdr_size)) (capacity a)) = 0")
            case True
            with full nf ff ga ra gr assms show ?thesis
              by (intro grow_fail[of a s]) (auto simp: armalloc_def Let_def arena_expand_def)
          next
            case False
            with full nf ff ga ra assms show ?thesis
              by (intro grow_ok[of a s]) (auto simp: armalloc_def Let_def arena_expand_def)
          qed
        qed
      qed
    qed
  qed
qed

lemma armalloc_size_ge:
  assumes "armalloc A lc s0 n = Some (p, s')" "p \<noteq> 0"
  shows "ALIGN A n \<le> size_f (hdrs s' (p - hdr_size))"
  using assms(1)
proof (cases rule: armalloc_cases)
  case (reuse a s pp cur)
  from first_fit_sound[OF reuse(2)] have "ALIGN A n \<le> size_f (hdrs s cur)" by (simp add: fits_def)
  with reuse show ?thesis by (simp add: store_link_fields)
qed (use assms(2) in simp_all)

lemma armalloc_cap_ok:
  assumes "armalloc A lc s0 n = Some (p, s')" "cap_ok s0"
  shows "cap_ok s'"
  using assms(1)
proof (cases rule: armalloc_cases)
  case no_arena
  with assms show ?thesis by simp
next
  case (reuse a s pp cur)
  from get_arena_cap_ok[OF reuse(1) assms(2)] get_arena_result[OF reuse(1)] reuse(4)
  show ?thesis by (simp add: cap_ok_def store_link_fields)
next
  case (bump a s)
  then show ?thesis by (simp add: cap_ok_def not_less)
next
  case (grow_fail a s)
  from get_arena_cap_ok[OF grow_fail(1) assms(2)] grow_fail show ?thesis by simp
next
  case (grow_ok a s nb nc)
  then show ?thesis by (simp add: cap_ok_def expand_loop_ge)
qed

lemma insert_arena:
  assumes "freelist_insert_and_coalesce a s block = Some (a1, s1)"
  shows "offset a1 = offset a \<and> capacity a1 = capacity a \<and> buffer a1 = buffer a"
  using assms
  by (auto simp: freelist_insert_and_coalesce_def Let_def split: option.splits prod.splits if_splits)

lemma arfree_cap_ok:
  assumes "arfree A lc s0 p = Some s'" "cap_ok s0"
  shows "cap_ok s'"
proof -
  obtain r s where ga: "get_arena A lc s0 = (r, s)" by (cases "get_arena A lc s0")
  note ok = get_arena_cap_ok[OF ga assms(2)] and gr = get_arena_result[OF ga]
  show ?thesis
  proof (cases "p = 0 \<or> r = None \<or> freed (hdrs s (p - hdr_size)) \<noteq> 0")
    case True
    with assms ga ok show ?thesis by (auto simp: arfree_def Let_def split: if_splits option.splits)
  next
    case False
    then obtain a where a: "r = Some a" by auto
    with False assms(1) ga obtain a1 s1 where
      ins: "freelist_insert_and_coalesce a s (p - hdr_size) = Some (a1, s1)"
      and s': "s' = s1\<lparr>arena_key := Some a1\<rparr>"
      by (auto simp: arfree_def Let_def split: option.splits)
    from ok gr a have "offset a \<le> capacity a" by (simp add: cap_ok_def)
    with insert_arena[OF ins] s' show ?thesis by (simp add: cap_ok_def)
  qed
qed

lemma arcalloc_cap_ok:
  assumes "arcalloc A lc s0 num sz = Some (Inr (p, s'))" "cap_ok s0"
  shows "cap_ok s'"
proof (cases "sz \<noteq> 0 \<and> SIZE_MAX div sz < num")
  case True
  with assms show ?thesis by (simp add: arcalloc_def)
next
  case False
  with assms(1) obtain s1 where m: "armalloc A lc s0 (num * sz) = Some (p, s1)"
    and s': "arena_key s' = arena_key s1"
    by (auto simp: arcalloc_def Let_def memset_simps split: option.splits if_splits)
  from armalloc_cap_ok[OF m assms(2)] s' show ?thesis by (simp add: cap_ok_def)
qed

lemma arrealloc_cap_ok:
  assumes "arrealloc A lc s0 p n = Some (q, s')" "cap_ok s0"
  shows "cap_ok s'"
proof -
  obtain r s where ga: "get_arena A lc s0 = (r, s)" by (cases "get_arena A lc s0")
  note ok = get_arena_cap_ok[OF ga assms(2)] and gr = get_arena_result[OF ga]
  show ?thesis
  proof (cases r)
    case None
    with assms ga ok show ?thesis by (simp add: arrealloc_def)
  next
    case (Some a)
    note a = this
    show ?thesis
    proof (cases "p = 0")
      case True
      with a ga assms(1) have "armalloc A lc s n = Some (q, s')" by (simp add: arrealloc_def)
      from armalloc_cap_ok[OF this ok] show ?thesis .
    next
      case False
      note p = this
      show ?thesis
      proof (cases "ALIGN A n \<le> size_f (hdrs s (p - hdr_size))")
        case True
        with p a ga assms(1) have "arena_key s' = arena_key s"
          by (auto simp: arrealloc_def Let_def)
        with ok show ?thesis by (simp add: cap_ok_def)
      next
        case False
        with p a ga assms(1) obtain np s1 where m: "armalloc A lc s n = Some (np, s1)"
          by (auto simp: arrealloc_def Let_def split: option.splits)
        note ok1 = armalloc_cap_ok[OF m ok]
        show ?thesis
        proof (cases "np = 0")
          case True
          with False p a ga assms(1) m ok1 show ?thesis by (simp add: arrealloc_def Let_def)
        next
          case False
          let ?s2 = "memcpy s1 np p (size_f (hdrs s1 (p - hdr_size)))"
          from False \<open>\<not> ALIGN A n \<le> size_f (hdrs s (p - hdr_size))\<close> p a ga assms(1) m
          have f: "arfree A lc ?s2 p = Some s'"
            by (auto simp: arrealloc_def Let_def split: option.splits)
          from ok1 have "cap_ok ?s2" by (simp add: cap_ok_def memcpy_simps)
          from arfree_cap_ok[OF f this] show ?thesis .
        qed
      qed
    qed
  qed
qed

lemma arreset_cap_ok: "cap_ok (arreset A lc s)"
  by (auto simp: arreset_def cap_ok_def get_arena_def Let_def split: option.splits)

lemma step_cap_ok: "step A lc c s = Some s' \<Longrightarrow> cap_ok s \<Longrightarrow> cap_ok s'"
proof (cases c)
  case (Allocate n)
  assume "step A lc c s = Some s'" "cap_ok s"
  with Allocate show ?thesis by (auto dest: armalloc_cap_ok)
next
  case (AllocateZeroed num sz)
  assume "step A lc c s = Some s'" "cap_ok s"
  with AllocateZeroed show ?thesis
    by (auto dest: arcalloc_cap_ok split: option.splits sum.splits)
next
  case (Reallocate p n)
  assume "step A lc c s = Some s'" "cap_ok s"
  with Reallocate show ?thesis by (auto dest: arrealloc_cap_ok)
next
  case (Free p)
  assume "step A lc c s = Some s'" "cap_ok s"
  with Free show ?thesis by (auto dest: arfree_cap_ok)
next
  case Reset
  assume "step A lc c s = Some s'" "cap_ok s"
  with Reset show ?thesis by (auto simp: arreset_cap_ok)
qed

lemma run_cap_ok: "run A cs s = Some s' \<Longrightarrow> cap_ok s \<Longrightarrow> cap_ok s'"
proof (induction cs arbitrary: s)
  case Nil
  then show ?case by simp
next
  case (Cons x cs)
  obtain lc c where x: "x = (lc, c)" by (cases x)
  with Cons.prems obtain s1 where 1: "step A lc c s = Some s1" and 2: "run A cs s1 = Some s'"
    by (auto split: option.splits)
  from step_cap_ok[OF 1 Cons.prems(2)] show ?case by (rule Cons.IH[OF 2])
qed


lemma armalloc0_reuse:
  assumes "arena_key s = Some a" "freelist a \<noteq> 0" "freed (hdrs s (freelist a)) \<noteq> 0"
  shows "armalloc A lc s 0 =
     Some (freelist a + hdr_size,
           s\<lparr>arena_key := Some (a\<lparr>freelist := next_f (hdrs s (freelist a))\<rparr>),
             hdrs := (hdrs s)(freelist a := (hdrs s (freelist a))\<lparr>freed := 0, next_f := 0\<rparr>)\<rparr>)"
proof -
  from assms have "first_fit (hdrs s) 0 FreelistField (freelist a) = Some (Some (FreelistField, freelist a))"
    by (subst first_fit.simps) simp
  with assms(1) show ?thesis
    by (simp add: armalloc_def get_arena_Some ALIGN_0 Let_def)
qed

lemma armalloc0_bump:
  assumes "arena_key s = Some a" "freelist a = 0"
  shows "armalloc A lc s 0 =
     (if \<not> capacity a < offset a + hdr_size then
        Some (buffer a + offset a + hdr_size,
              s\<lparr>arena_key := Some (a\<lparr>offset := offset a + hdr_size\<rparr>),
                hdrs := (hdrs s)(buffer a + offset a := \<lparr>size_f = 0, freed = 0, next_f = 0\<rparr>)\<rparr>)
      else if realloc lc (buffer a) (expand_loop A (offset a + hdr_size) (capacity a)) = 0 then
        Some (0, s)
      else
        (let nc = expand_loop A (offset a + hdr_size) (capacity a);
             nb = realloc lc (buffer a) nc
         in Some (nb + offset a + hdr_size,
              s\<lparr>arena_key := Some (a\<lparr>buffer := nb, capacity := nc, offset := offset a + hdr_size\<rparr>),
                hdrs := (moved (buffer a) nb (min (capacity a) nc) (hdrs s))
                   (nb + offset a := \<lparr>size_f = 0, freed = 0, next_f = 0\<rparr>),
                bytes := moved (buffer a) nb (min (capacity a) nc) (bytes s)\<rparr>)))"
proof -
  from assms have "first_fit (hdrs s) 0 FreelistField (freelist a) = Some None"
    by (subst first_fit.simps) simp
  with assms(1) show ?thesis
    by (simp add: armalloc_def get_arena_Some ALIGN_0 Let_def arena_expand_def)
qed

lemma doubling_low_bits: "(5242880 * 2 ^ k :: 64 word) AND 31 = 0"
proof -
  have "(5242880 * 2 ^ k :: 64 word) = push_bit (20 + k) 5"
    by (simp add: push_bit_eq_mult power_add)
  moreover have "take_bit 5 (push_bit (20 + k) (5 :: 64 word)) = 0"
    by (simp add: take_bit_push_bit)
  moreover have "(31 :: 64 word) = mask 5" by (simp add: mask_eq_exp_minus_1)
  ultimately show ?thesis by (simp only: take_bit_eq_mask)
qed

lemma not_a_doubling: "(20971544 :: 64 word) \<noteq> 5242880 * 2 ^ k"
proof
  assume "(20971544 :: 64 word) = 5242880 * 2 ^ k"
  then have "(20971544 :: 64 word) AND 31 = 0" by (simp only: doubling_low_bits)
  then show False by simp
qed

lemma first_fit_cycle_aux:
  assumes "first_fit h0 al0 pp0 c0 = Some y"
  shows "\<not> (c0 \<noteq> 0 \<and> next_f (h0 c0) = c0 \<and> \<not> fits h0 al0 c0)"
proof (rule first_fit.raw_induct[OF _ assms])
  fix ff h aligned prevp cur r
  assume IH: "\<And>h al pp c r. ff h al pp c = Some r \<Longrightarrow> \<not> (c \<noteq> 0 \<and> next_f (h c) = c \<and> \<not> fits h al c)"
    and eq: "(if cur \<noteq> 0
        then if freed (h cur) \<noteq> 0 \<and> aligned \<le> size_f (h cur)
             then Some (Some (prevp, cur))
             else ff h aligned (NextField cur) (next_f (h cur))
        else Some None) = Some r"
  show "\<not> (cur \<noteq> 0 \<and> next_f (h cur) = cur \<and> \<not> fits h aligned cur)"
  proof
    assume c: "cur \<noteq> 0 \<and> next_f (h cur) = cur \<and> \<not> fits h aligned cur"
    with eq have "ff h aligned (NextField cur) cur = Some r" by (auto simp: fits_def)
    from IH[OF this] c show False by simp
  qed
qed

lemma first_fit_cycle:
  assumes "c \<noteq> 0" "next_f (h c) = c" "\<not> fits h al c"
  shows "first_fit h al pp c = None"
proof (cases "first_fit h al pp c")
  case None
  then show ?thesis .
next
  case (Some y)
  from first_fit_cycle_aux[OF this] assms show ?thesis by simp
qed

lemma flist_cycle:
  assumes "c \<noteq> 0" "next_f (h c) = c" shows "\<not> flist h c ps"
proof
  assume f: "flist h c ps"
  with assms obtain ps' where ps: "ps = c # ps'" and f': "flist h c ps'"
    by (cases ps) (auto simp: flist_def)
  from f f' have "ps' = ps" unfolding flist_def by (rule lseg_fun[symmetric])
  with ps show False by simp
qed

lemma armalloc_size_exact:
  assumes m: "armalloc A lc s0 n = Some (p, s')" and p: "p \<noteq> 0"
    and nofit: "\<forall>a. arena_key s0 = Some a \<longrightarrow>
       first_fit (hdrs s0) (ALIGN A n) FreelistField (freelist a) = Some None"
  shows "size_f (hdrs s' (p - hdr_size)) = ALIGN A n"
  using m
proof (cases rule: armalloc_cases)
  case (reuse a s pp cur)
  note gr = get_arena_result[OF reuse(1)]
  show ?thesis
  proof (cases "arena_key s0")
    case None
    with gr have "freelist a = 0" by simp
    then have "first_fit (hdrs s) (ALIGN A n) FreelistField (freelist a) = Some None"
      by (subst first_fit.simps) simp
    with reuse(2) show ?thesis by simp
  next
    case (Some a0)
    with gr have "s = s0" "a0 = a" by auto
    with Some nofit reuse(2) show ?thesis by simp
  qed
qed (use p in simp_all)

lemma armalloc_reuse_keeps_size:
  assumes a: "arena_key s = Some a"
    and ff: "first_fit (hdrs s) (ALIGN A n) FreelistField (freelist a) = Some (Some (pp, c))"
  shows "\<exists>s'. armalloc A lc s n = Some (c + hdr_size, s') \<and>
     size_f (hdrs s' c) = size_f (hdrs s c) \<and> freed (hdrs s' c) = 0 \<and>
     freed (hdrs s c) \<noteq> 0 \<and> ALIGN A n \<le> size_f (hdrs s c)"
proof -
  from first_fit_sound[OF ff] have "fits (hdrs s) (ALIGN A n) c" by simp
  then have f: "freed (hdrs s c) \<noteq> 0" "ALIGN A n \<le> size_f (hdrs s c)" by (simp_all add: fits_def)
  obtain a1 h1 where sl: "store_link pp (next_f (hdrs s c)) (a, hdrs s) = (a1, h1)"
    by (cases "store_link pp (next_f (hdrs s c)) (a, hdrs s)")
  from store_link_fields(1)[of pp "next_f (hdrs s c)" a "hdrs s" c] sl
  have "size_f (h1 c) = size_f (hdrs s c)" by simp
  with a ff sl f show ?thesis by (simp add: armalloc_def get_arena_Some Let_def)
qed

lemma armalloc_bump_in_buffer:
  assumes ga: "get_arena A lc s0 = (Some a, s)"
    and ff: "first_fit (hdrs s0) (ALIGN A n) FreelistField (freelist a) = Some None"
    and nw: "unat (offset a) + unat (ALIGN A n) + unat hdr_size < 2 ^ 64"
    and m: "armalloc A lc s0 n = Some (p, s')" and p: "p \<noteq> 0"
    and a': "arena_key s' = Some a'"
    and sp: "in_address_space (buffer a') (capacity a')"
  shows "unat p = unat (buffer a') + unat (offset a) + unat hdr_size \<and>
     unat p + unat (ALIGN A n) = unat (buffer a') + unat (offset a') \<and>
     unat (offset a') \<le> unat (capacity a') \<and>
     size_f (hdrs s' (p - hdr_size)) = ALIGN A n"
proof -
  let ?t = "ALIGN A n + hdr_size"
  from nw have t: "unat ?t = unat (ALIGN A n) + unat hdr_size"
    by (simp add: unat_plus_if_size word_size)
  with nw have ot: "unat (offset a + ?t) = unat (offset a) + unat (ALIGN A n) + unat hdr_size"
    by (simp add: unat_plus_if_size word_size)
  note gr = get_arena_result[OF ga]
  have fin: "p = buffer a' + offset a + hdr_size \<Longrightarrow> offset a' = offset a + ?t \<Longrightarrow>
     offset a' \<le> capacity a' \<Longrightarrow> size_f (hdrs s' (p - hdr_size)) = ALIGN A n \<Longrightarrow> ?thesis"
  proof -
    assume pe: "p = buffer a' + offset a + hdr_size" and oe: "offset a' = offset a + ?t"
      and le: "offset a' \<le> capacity a'" and sz: "size_f (hdrs s' (p - hdr_size)) = ALIGN A n"
    from le have len: "unat (offset a') \<le> unat (capacity a')" by (simp add: word_le_nat_alt)
    from sp have b: "unat (buffer a') + unat (capacity a') \<le> 2 ^ 64"
      by (simp add: in_address_space_def)
    from ot oe have on: "unat (offset a') = unat (offset a) + unat (ALIGN A n) + unat hdr_size" by simp
    have oh: "unat (offset a + hdr_size) = unat (offset a) + unat hdr_size"
      using nw by (simp add: unat_plus_if_size word_size)
    from p have "unat p \<noteq> 0" by (simp add: unat_eq_0)
    moreover from pe have "unat p = unat (buffer a' + (offset a + hdr_size))" by (simp add: add.assoc)
    ultimately have "unat p = unat (buffer a') + unat (offset a) + unat hdr_size"
      using b len on oh by (simp add: unat_plus_if_size word_size split: if_splits)
    with on len sz show ?thesis by simp
  qed
  from m show ?thesis
  proof (cases rule: armalloc_cases)
    case no_arena
    with p show ?thesis by simp
  next
    case (reuse a2 s2 pp cur)
    with ga gr ff show ?thesis by simp
  next
    case (bump a2 s2)
    with ga a' have "a2 = a" "a' = a\<lparr>offset := offset a + ?t\<rparr>" by auto
    with bump show ?thesis by (intro fin) (simp_all add: not_less)
  next
    case (grow_fail a2 s2)
    with p show ?thesis by simp
  next
    case (grow_ok a2 s2 nb nc)
    with ga a' have "a2 = a"
      "a' = a\<lparr>buffer := nb, capacity := nc, offset := offset a + ?t\<rparr>" by auto
    with grow_ok show ?thesis by (intro fin) (simp_all add: expand_loop_ge)
  qed
qed

lemma flist_head_lowest:
  assumes "flist h p ps" "sorted_wrt (<) ps" "c \<in> set ps"
  shows "p \<le> c"
proof (cases ps)
  case Nil
  with assms show ?thesis by simp
next
  case (Cons x xs)
  with assms have "p = x" by (simp add: flist_def)
  with Cons assms show ?thesis by auto
qed

lemma payload_ptr_nonnull:
  assumes "q \<noteq> 0" "unat q + unat hdr_size < 2 ^ 64"
  shows "q + hdr_size \<noteq> 0"
proof -
  from assms(2) have "unat q + unat hdr_size < 2 ^ LENGTH(64)" by simp
  then have "unat (q + hdr_size) = unat q + unat hdr_size" by (simp only: unat_add_lem)
  moreover from assms(1) have "unat q \<noteq> 0" by (simp add: unat_eq_0)
  ultimately show ?thesis by (metis add_is_0 unat_eq_0)
qed

lemma arena_expand_capacity_fst:
  assumes "fst (arena_expand A lc a s r) = 0"
  shows "r \<le> capacity (fst (snd (arena_expand A lc a s r))) \<and>
     capacity (fst (snd (arena_expand A lc a s r))) =
       (if capacity a < r then
          (if capacity a \<noteq> 0 then (if capacity a * 2 < r then r else capacity a * 2)
           else (if ALIGN A r < r then r else ALIGN A r))
        else capacity a)"
proof -
  from assms have ok: "realloc lc (buffer a) (expand_loop A r (capacity a)) \<noteq> 0"
    by (auto simp: arena_expand_def Let_def split: if_splits)
  then have c: "capacity (fst (snd (arena_expand A lc a s r))) = expand_loop A r (capacity a)"
    by (simp add: arena_expand_def Let_def)
  show ?thesis unfolding c using expand_loop_ge[of r A "capacity a"]
    by (simp only: expand_loop_once[symmetric] simp_thms)
qed

lemma created_arena_aligned:
  assumes "arena_key s = None" "get_arena A lc s = (Some a, s1)"
  shows "is_aligned A (capacity a) \<and> offset a = 0"
  using get_arena_result[OF assms(2)] assms(1)
  by (simp add: is_aligned_def ALIGN_aligned)

lemma doubling_keeps_aligned:
  assumes "is_aligned (2 ^ k) c"
  shows "is_aligned (2 ^ k) (c * 2)"
proof -
  have m: "(2 ^ k - 1 :: 64 word) = mask k" by (simp add: mask_eq_exp_minus_1)
  from assms have "take_bit k c = 0"
    by (simp add: is_aligned_def m take_bit_eq_mask)
  then have "2 ^ k dvd c" by (simp only: take_bit_eq_0_iff)
  then have "2 ^ k dvd c * 2" by (rule dvd_mult2)
  then have "take_bit k (c * 2) = 0" by (simp only: take_bit_eq_0_iff)
  then show ?thesis by (simp add: is_aligned_def m take_bit_eq_mask)
qed

lemma arrealloc_null_propagates:
  assumes "arena_key s = Some a" "p \<noteq> 0" "size_f (hdrs s (p - hdr_size)) < ALIGN A n"
    and "armalloc A lc s n = Some (0, s1)"
  shows "arrealloc A lc s p n = Some (0, s1)"
  using assms by (simp add: arrealloc_def get_arena_Some Let_def not_le[symmetric])

subsection \<open>The free list stays ascending and untouching\<close>

lemma lseg_cong:
  "\<forall>x\<in>set xs. next_f (h' x) = next_f (h x) \<Longrightarrow> lseg h' p xs q = lseg h p xs q"
  by (induction xs arbitrary: p) auto

lemma lseg_nonzero: "lseg h p xs q \<Longrightarrow> 0 \<notin> set xs"
  by (induction xs arbitrary: p) auto


lemma blk_end_gt: "unat c < blk_end h c"
  by (simp add: blk_end_def hdr_size_def)

lemma gap_less: "blk_end h x < unat y \<Longrightarrow> x < y"
  using blk_end_gt[of x h] by (simp add: word_less_nat_alt)

lemma free_list_ok_strict:
  assumes "free_list_ok h p ps"
  shows "sorted_wrt (<) ps"
  using assms unfolding free_list_ok_def
  by (auto intro: sorted_wrt_mono_rel[of ps "\<lambda>x y. blk_end h x < unat y"] gap_less)

lemma touch_iff:
  assumes "blk_end h b \<le> unat y"
  shows "(b + hdr_size + size_f (h b) = y) = (blk_end h b = unat y)"
proof -
  have y: "unat y < 2 ^ LENGTH(64)" by (rule unsigned_less)
  with assms have lt: "unat b + unat hdr_size + unat (size_f (h b)) < 2 ^ LENGTH(64)"
    by (simp add: blk_end_def)
  then have "unat b + unat hdr_size < 2 ^ LENGTH(64)" by simp
  then have 1: "unat (b + hdr_size) = unat b + unat hdr_size" by (simp only: unat_add_lem)
  with lt have "unat (b + hdr_size) + unat (size_f (h b)) < 2 ^ LENGTH(64)" by simp
  then have "unat (b + hdr_size + size_f (h b)) = unat (b + hdr_size) + unat (size_f (h b))"
    by (simp only: unat_add_lem)
  with 1 have "unat (b + hdr_size + size_f (h b)) = blk_end h b" by (simp add: blk_end_def)
  then show ?thesis by (simp add: word_unat_eq_iff)
qed

lemma merged_size:
  assumes "blk_end h b = unat y" "unat y + unat hdr_size + unat sy \<le> 2 ^ 64"
  shows "unat (size_f (h b) + (hdr_size + sy)) = unat (size_f (h b)) + unat hdr_size + unat sy"
proof -
  from assms have lt: "unat (size_f (h b)) + unat hdr_size + unat sy < 2 ^ LENGTH(64)"
    by (simp add: blk_end_def hdr_size_def)
  then have "unat hdr_size + unat sy < 2 ^ LENGTH(64)" by simp
  then have 1: "unat (hdr_size + sy) = unat hdr_size + unat sy" by (simp only: unat_add_lem)
  with lt have "unat (size_f (h b)) + unat (hdr_size + sy) < 2 ^ LENGTH(64)" by simp
  then have "unat (size_f (h b) + (hdr_size + sy)) = unat (size_f (h b)) + unat (hdr_size + sy)"
    by (simp only: unat_add_lem)
  with 1 show ?thesis by simp
qed

lemma find_pos_split:
  assumes "lseg h p xs c" "\<forall>x\<in>set xs. x < block" "c = 0 \<or> \<not> c < block"
  shows "find_pos h block 0 p = Some (if xs = [] then 0 else last xs, c)"
proof -
  from assms(3) have "find_pos h block (if xs = [] then 0 else last xs) c
      = Some (if xs = [] then 0 else last xs, c)"
    by (subst find_pos.simps) auto
  with find_pos_lseg[OF assms(1,2), of 0] show ?thesis by simp
qed

lemma split_around:
  assumes ok: "free_list_ok h p ps" and bn: "b \<notin> set ps"
    and dj: "\<forall>c\<in>set ps. blk_end h c \<le> unat b \<or> blk_end h b \<le> unat c"
  obtains xs ys where "ps = xs @ ys"
    "\<forall>x\<in>set xs. x < b \<and> blk_end h x \<le> unat b"
    "\<forall>y\<in>set ys. b < y \<and> blk_end h b \<le> unat y"
proof -
  let ?xs = "takeWhile (\<lambda>x. x < b) ps" and ?ys = "dropWhile (\<lambda>x. x < b) ps"
  have ps: "ps = ?xs @ ?ys" by simp
  have xs: "\<forall>x\<in>set ?xs. x < b" by (auto dest: set_takeWhileD)
  from ok have st: "sorted_wrt (<) ps" by (rule free_list_ok_strict)
  have ys: "\<forall>y\<in>set ?ys. b < y"
  proof (cases ?ys)
    case Nil
    show ?thesis unfolding Nil by simp
  next
    case (Cons y ys')
    then have "\<not> y < b" by (metis hd_dropWhile list.distinct(1) list.sel(1))
    moreover from Cons bn have "y \<noteq> b" by (metis list.set_intros(1) set_dropWhileD)
    ultimately have bly: "b < y" by simp
    from st have "sorted_wrt (<) ?ys" by (metis ps sorted_wrt_append)
    with Cons have "\<forall>z\<in>set ys'. y < z" by simp
    with bly Cons show ?thesis by auto
  qed
  have "\<forall>x\<in>set ?xs. blk_end h x \<le> unat b"
  proof
    fix x assume x: "x \<in> set ?xs"
    then have "x \<in> set ps" by (rule set_takeWhileD[THEN conjunct1])
    with dj have "blk_end h x \<le> unat b \<or> blk_end h b \<le> unat x" by simp
    moreover from xs x have "unat x < unat b" by (simp add: word_less_nat_alt)
    moreover have "unat b < blk_end h b" by (rule blk_end_gt)
    ultimately show "blk_end h x \<le> unat b" by linarith
  qed
  moreover have "\<forall>y\<in>set ?ys. blk_end h b \<le> unat y"
  proof
    fix y assume y: "y \<in> set ?ys"
    then have "y \<in> set ps" by (rule set_dropWhileD)
    with dj have "blk_end h y \<le> unat b \<or> blk_end h b \<le> unat y" by simp
    moreover from ys y have "unat b < unat y" by (simp add: word_less_nat_alt)
    moreover have "unat y < blk_end h y" by (rule blk_end_gt)
    ultimately show "blk_end h b \<le> unat y" by linarith
  qed
  ultimately show ?thesis using that[OF ps] xs ys by blast
qed


lemma sorted_gap_cong:
  assumes "\<forall>c\<in>set xs. size_f (h' c) = size_f (h c)"
  shows "sorted_wrt (\<lambda>x y. blk_end h' x < unat y) xs = sorted_wrt (\<lambda>x y. blk_end h x < unat y) xs"
proof -
  from assms have "\<forall>c\<in>set xs. blk_end h' c = blk_end h c" by (simp add: blk_end_def)
  then show ?thesis by (induction xs) auto
qed

lemma coalesce_next_ok:
  assumes fl: "flist h p (xs @ b # ys)"
    and fr: "\<forall>c\<in>set (xs @ b # ys). freed (h c) \<noteq> 0 \<and> blk_end h c \<le> 2 ^ 64"
    and sx: "sorted_wrt (\<lambda>x y. blk_end h x < unat y) xs"
    and sy: "sorted_wrt (\<lambda>x y. blk_end h x < unat y) ys"
    and xb: "\<forall>x\<in>set xs. blk_end h x \<le> unat b"
    and by': "\<forall>y\<in>set ys. blk_end h b \<le> unat y"
  shows "\<exists>zs. flist (coalesce_next h b) p (xs @ b # zs) \<and> set zs \<subseteq> set ys \<and>
      (\<forall>c\<in>set (xs @ b # zs). freed (coalesce_next h b c) \<noteq> 0 \<and> blk_end (coalesce_next h b) c \<le> 2 ^ 64) \<and>
      sorted_wrt (\<lambda>x y. blk_end (coalesce_next h b) x < unat y) xs \<and>
      sorted_wrt (\<lambda>x y. blk_end (coalesce_next h b) x < unat y) (b # zs) \<and>
      (\<forall>x\<in>set xs. blk_end (coalesce_next h b) x \<le> unat b) \<and>
      (\<forall>c. c \<noteq> b \<longrightarrow> coalesce_next h b c = h c)"
proof -
  from fl have dist: "distinct (xs @ b # ys)" by (rule flist_distinct)
  from fl obtain m where m: "lseg h p xs m" "lseg h m (b # ys) 0"
    by (auto simp: flist_def lseg_append)
  then have b: "m = b" "b \<noteq> 0" and nys: "lseg h (next_f (h b)) ys 0" by auto
  show ?thesis
  proof (cases ys)
    case Nil
    with nys have "next_f (h b) = 0" by simp
    then have "coalesce_next h b = h" by (simp add: coalesce_next_def)
    with Nil fl fr sx xb show ?thesis by auto
  next
    case (Cons y ys')
    with nys have y: "next_f (h b) = y" "y \<noteq> 0" and nys': "lseg h (next_f (h y)) ys' 0" by auto
    from Cons fr have fy: "freed (h y) \<noteq> 0" "blk_end h y \<le> 2 ^ 64" by auto
    from Cons by' have le: "blk_end h b \<le> unat y" by simp
    from Cons dist have d: "y \<noteq> b" "b \<notin> set xs" "b \<notin> set ys'" "y \<notin> set ys'" by auto
    show ?thesis
    proof (cases "blk_end h b = unat y")
      case False
      with le have lt: "blk_end h b < unat y" by simp
      from False touch_iff[OF le] y fy have same: "coalesce_next h b = h"
        by (simp add: coalesce_next_def Let_def)
      from Cons sy have "\<forall>z\<in>set ys'. blk_end h y < unat z" by simp
      with lt blk_end_gt[of y h] have "\<forall>z\<in>set ys'. blk_end h b < unat z" by fastforce
      with lt Cons sy have "sorted_wrt (\<lambda>x y. blk_end h x < unat y) (b # ys)" by simp
      with same fl fr sx xb show ?thesis by auto
    next
      case True
      let ?h' = "h(b := (h b)\<lparr>size_f := size_f (h b) + (hdr_size + size_f (h y)), next_f := next_f (h y)\<rparr>)"
      from True touch_iff[OF le] y fy d have h': "coalesce_next h b = ?h'"
        by (simp add: coalesce_next_def Let_def)
      from fy have "unat y + unat hdr_size + unat (size_f (h y)) \<le> 2 ^ 64" by (simp add: blk_end_def)
      from merged_size[OF True this] True
      have be: "blk_end ?h' b = blk_end h y" by (simp add: blk_end_def)
      have oth: "\<forall>c. c \<noteq> b \<longrightarrow> ?h' c = h c" by simp
      from m(1) b d have 1: "lseg ?h' p xs b" by (simp add: lseg_upd_notin)
      from nys' d have 2: "lseg ?h' (next_f (h y)) ys' 0" by (simp add: lseg_upd_notin)
      from 1 2 b have fl': "flist ?h' p (xs @ b # ys')" by (simp add: flist_def lseg_append)
      from fr Cons be fy have fr': "\<forall>c\<in>set (xs @ b # ys'). freed (?h' c) \<noteq> 0 \<and> blk_end ?h' c \<le> 2 ^ 64"
        by (auto simp: blk_end_def)
      from sx d have sx': "sorted_wrt (\<lambda>x y. blk_end ?h' x < unat y) xs"
        by (subst sorted_gap_cong[of xs ?h' h]) auto
      from Cons sy have "sorted_wrt (\<lambda>x y. blk_end h x < unat y) ys'" and "\<forall>z\<in>set ys'. blk_end h y < unat z"
        by simp_all
      with d be have sy': "sorted_wrt (\<lambda>x y. blk_end ?h' x < unat y) (b # ys')"
        by (simp add: sorted_gap_cong[of ys' ?h' h])
      from xb d have xb': "\<forall>x\<in>set xs. blk_end ?h' x \<le> unat b" by (auto simp: blk_end_def)
      from Cons have sub: "set ys' \<subseteq> set ys" by auto
      from fl' sub fr' sx' sy' xb' oth show ?thesis unfolding h' by blast
    qed
  qed
qed

lemma coalesce_prev_ok:
  assumes fl: "flist h p (xs @ b # zs)"
    and fr: "\<forall>c\<in>set (xs @ b # zs). freed (h c) \<noteq> 0 \<and> blk_end h c \<le> 2 ^ 64"
    and sx: "sorted_wrt (\<lambda>x y. blk_end h x < unat y) xs"
    and sz: "sorted_wrt (\<lambda>x y. blk_end h x < unat y) (b # zs)"
    and xb: "\<forall>x\<in>set xs. blk_end h x \<le> unat b"
  shows "\<exists>F. free_list_ok (coalesce_prev h (if xs = [] then 0 else last xs) b) p F \<and>
      set F \<subseteq> set (xs @ b # zs)"
proof -
  from fl have dist: "distinct (xs @ b # zs)" by (rule flist_distinct)
  from fl obtain m where m: "lseg h p xs m" "lseg h m (b # zs) 0"
    by (auto simp: flist_def lseg_append)
  then have b: "m = b" "b \<noteq> 0" and nzs: "lseg h (next_f (h b)) zs 0" by auto
  from sz have bz: "\<forall>z\<in>set zs. blk_end h b < unat z"
    and szs: "sorted_wrt (\<lambda>x y. blk_end h x < unat y) zs" by simp_all
  show ?thesis
  proof (cases xs rule: rev_cases)
    case Nil
    then have "coalesce_prev h (if xs = [] then 0 else last xs) b = h"
      by (simp add: coalesce_prev_def)
    with Nil fl fr sz have "free_list_ok (coalesce_prev h (if xs = [] then 0 else last xs) b) p (b # zs)"
      by (simp add: free_list_ok_def)
    with Nil show ?thesis by auto
  next
    case (snoc xs' x)
    with m(1) b have seg: "lseg h p xs' x" and x: "x \<noteq> 0" "next_f (h x) = b"
      by (auto simp: lseg_append)
    from snoc fr have fx: "freed (h x) \<noteq> 0" by auto
    from snoc xb have le: "blk_end h x \<le> unat b" by simp
    from snoc dist have d: "x \<noteq> b" "x \<notin> set xs'" "x \<notin> set zs" "b \<notin> set xs'" "b \<notin> set zs"
      by auto
    from snoc sx have sxs': "sorted_wrt (\<lambda>x y. blk_end h x < unat y) xs'"
      and wx: "\<forall>w\<in>set xs'. blk_end h w < unat x"
      by (simp_all add: sorted_wrt_append)
    have pv: "(if xs = [] then 0 else last xs) = x" using snoc by simp
    show ?thesis
    proof (cases "blk_end h x = unat b")
      case False
      with le have lt: "blk_end h x < unat b" by simp
      from False touch_iff[OF le] x fx have same: "coalesce_prev h x b = h"
        by (simp add: coalesce_prev_def Let_def)
      from lt bz blk_end_gt[of b h] have xz: "\<forall>z\<in>set zs. blk_end h x < unat z" by fastforce
      from wx lt blk_end_gt[of x h] have wb: "\<forall>w\<in>set xs'. blk_end h w < unat b" by fastforce
      from wb bz blk_end_gt[of b h] have wz: "\<forall>w\<in>set xs'. \<forall>z\<in>set zs. blk_end h w < unat z"
        by fastforce
      from sxs' wx lt xz wb wz szs bz
      have "sorted_wrt (\<lambda>x y. blk_end h x < unat y) (xs' @ x # b # zs)"
        by (auto simp: sorted_wrt_append)
      with fl fr snoc have "free_list_ok h p (xs @ b # zs)" by (simp add: free_list_ok_def)
      with same pv show ?thesis by auto
    next
      case True
      let ?h' = "h(x := (h x)\<lparr>size_f := size_f (h x) + (hdr_size + size_f (h b)), next_f := next_f (h b)\<rparr>)"
      from True touch_iff[OF le] x fx d have h': "coalesce_prev h x b = ?h'"
        by (simp add: coalesce_prev_def Let_def)
      from fr have "unat b + unat hdr_size + unat (size_f (h b)) \<le> 2 ^ 64" by (simp add: blk_end_def)
      from merged_size[OF True this] True
      have be: "blk_end ?h' x = blk_end h b" by (simp add: blk_end_def)
      from seg d have 1: "lseg ?h' p xs' x" by (simp add: lseg_upd_notin)
      from nzs d have 2: "lseg ?h' (next_f (h b)) zs 0" by (simp add: lseg_upd_notin)
      from 1 2 x have fl': "flist ?h' p (xs' @ x # zs)" by (simp add: flist_def lseg_append)
      from fr snoc be have fr': "\<forall>c\<in>set (xs' @ x # zs). freed (?h' c) \<noteq> 0 \<and> blk_end ?h' c \<le> 2 ^ 64"
        by (auto simp: blk_end_def)
      from sxs' d have s1: "sorted_wrt (\<lambda>x y. blk_end ?h' x < unat y) xs'"
        by (subst sorted_gap_cong[of xs' ?h' h]) auto
      from szs d have s2: "sorted_wrt (\<lambda>x y. blk_end ?h' x < unat y) zs"
        by (subst sorted_gap_cong[of zs ?h' h]) auto
      from be bz have s3: "\<forall>z\<in>set zs. blk_end ?h' x < unat z" by simp
      from wx d have s4: "\<forall>w\<in>set xs'. blk_end ?h' w < unat x" by (auto simp: blk_end_def)
      from wx True bz blk_end_gt[of x h] blk_end_gt[of b h]
      have "\<forall>w\<in>set xs'. \<forall>z\<in>set zs. blk_end h w < unat z" by fastforce
      with d have s5: "\<forall>w\<in>set xs'. \<forall>z\<in>set zs. blk_end ?h' w < unat z" by (auto simp: blk_end_def)
      from s1 s2 s3 s4 s5 have "sorted_wrt (\<lambda>x y. blk_end ?h' x < unat y) (xs' @ x # zs)"
        by (auto simp: sorted_wrt_append)
      with fl' fr' have "free_list_ok ?h' p (xs' @ x # zs)" by (simp add: free_list_ok_def)
      moreover from snoc have "set (xs' @ x # zs) \<subseteq> set (xs @ b # zs)" by auto
      ultimately show ?thesis unfolding pv h' by blast
    qed
  qed
qed

lemma insert_keeps_free_list_ok:
  assumes ok: "free_list_ok (hdrs s) (freelist a) ps"
    and b0: "b \<noteq> 0" and bf: "freed (hdrs s b) = 0" and bw: "blk_end (hdrs s) b \<le> 2 ^ 64"
    and dj: "\<forall>c\<in>set ps. blk_end (hdrs s) c \<le> unat b \<or> blk_end (hdrs s) b \<le> unat c"
  shows "\<exists>a' s' ps'. freelist_insert_and_coalesce a s b = Some (a', s') \<and>
      free_list_ok (hdrs s') (freelist a') ps' \<and> set ps' \<subseteq> insert b (set ps) \<and>
      bytes s' = bytes s \<and> buffer a' = buffer a \<and> capacity a' = capacity a \<and> offset a' = offset a"
proof -
  let ?h = "hdrs s"
  from ok have fl: "flist ?h (freelist a) ps"
    and fr: "\<forall>c\<in>set ps. freed (?h c) \<noteq> 0 \<and> blk_end ?h c \<le> 2 ^ 64"
    and so: "sorted_wrt (\<lambda>x y. blk_end ?h x < unat y) ps"
    by (simp_all add: free_list_ok_def)
  from fr bf have bn: "b \<notin> set ps" by auto
  from split_around[OF ok bn dj] obtain xs ys where ps: "ps = xs @ ys"
    and xs: "\<forall>x\<in>set xs. x < b \<and> blk_end ?h x \<le> unat b"
    and ys: "\<forall>y\<in>set ys. b < y \<and> blk_end ?h b \<le> unat y" by blast
  define cu where "cu = (if ys = [] then 0 else hd ys)"
  define pv where "pv = (if xs = [] then 0 else last xs)"
  let ?h2 = "?h(b := (?h b)\<lparr>freed := 1, next_f := 0\<rparr>)"
  from fl ps obtain m where m: "lseg ?h (freelist a) xs m" "lseg ?h m ys 0"
    by (auto simp: flist_def lseg_append)
  have mcu: "m = cu" using m(2) by (cases ys) (auto simp: cu_def)
  from lseg_nonzero[OF m(1)] have xnz: "0 \<notin> set xs" .
  from bn ps have bx: "b \<notin> set xs" "b \<notin> set ys" by auto
  from m(1) bx mcu have seg2: "lseg ?h2 (freelist a) xs cu" by (simp add: lseg_upd_notin)
  have stop: "cu = 0 \<or> \<not> cu < b"
    using ys by (cases ys) (auto simp: cu_def)
  from find_pos_split[OF seg2 _ stop] xs
  have fp: "find_pos ?h2 b 0 (freelist a) = Some (pv, cu)" by (simp add: pv_def)
  have pvnz: "(pv \<noteq> 0) = (xs \<noteq> [])"
  proof (cases "xs = []")
    case True
    then show ?thesis by (simp add: pv_def)
  next
    case False
    then have "last xs \<in> set xs" by simp
    with xnz have "last xs \<noteq> 0" by metis
    with False show ?thesis by (simp add: pv_def)
  qed
  define h4 where "h4 = (if xs = [] then ?h2 else ?h2(pv := (?h2 pv)\<lparr>next_f := b\<rparr>))
      (b := (?h b)\<lparr>freed := 1, next_f := cu\<rparr>)"
  define hd' where "hd' = (if xs = [] then b else freelist a)"
  have res: "freelist_insert_and_coalesce a s b =
      Some (a\<lparr>freelist := hd'\<rparr>, s\<lparr>hdrs := coalesce_prev (coalesce_next h4 b) pv b\<rparr>)"
  proof (cases "xs = []")
    case True
    with fp pvnz show ?thesis
      by (simp add: freelist_insert_and_coalesce_def Let_def h4_def hd'_def)
  next
    case False
    then have "pv \<in> set xs" by (simp add: pv_def)
    with bx have "pv \<noteq> b" by auto
    with False fp pvnz show ?thesis
      by (simp add: freelist_insert_and_coalesce_def Let_def h4_def hd'_def fun_upd_twist)
  qed
  have size4: "\<forall>c. size_f (h4 c) = size_f (?h c)" by (simp add: h4_def)
  have be4: "\<forall>c. blk_end h4 c = blk_end ?h c" using size4 by (simp add: blk_end_def)
  have fl4: "flist h4 hd' (xs @ b # ys)"
  proof (cases xs rule: rev_cases)
    case Nil
    with m mcu have "lseg ?h cu ys 0" by simp
    with bx have "lseg h4 cu ys 0" by (simp add: h4_def Nil lseg_upd_notin)
    with Nil b0 show ?thesis by (simp add: flist_def hd'_def h4_def)
  next
    case (snoc xs' x)
    with m(1) have seg: "lseg ?h (freelist a) xs' x" and x: "x \<noteq> 0"
      by (auto simp: lseg_append)
    from fl ps have "distinct (xs @ ys)" using flist_distinct by blast
    with snoc bx have d: "x \<notin> set xs'" "x \<notin> set ys" "x \<noteq> b" "b \<notin> set xs'" by auto
    have pvx: "pv = x" using snoc by (simp add: pv_def)
    from seg d have 1: "lseg h4 (freelist a) xs' x"
      by (simp add: h4_def snoc pvx lseg_upd_notin)
    from m(2) mcu d bx have 2: "lseg h4 cu ys 0"
      by (simp add: h4_def snoc pvx lseg_upd_notin)
    from d have 3: "next_f (h4 x) = b" "next_f (h4 b) = cu" by (simp_all add: h4_def snoc pvx)
    from 1 2 3 x b0 snoc show ?thesis by (simp add: flist_def hd'_def lseg_append)
  qed
  have fr4: "\<forall>c\<in>set (xs @ b # ys). freed (h4 c) \<noteq> 0 \<and> blk_end h4 c \<le> 2 ^ 64"
  proof
    fix c assume c: "c \<in> set (xs @ b # ys)"
    show "freed (h4 c) \<noteq> 0 \<and> blk_end h4 c \<le> 2 ^ 64"
    proof (cases "c = b")
      case True
      with bw be4 show ?thesis by (simp add: h4_def)
    next
      case False
      with c ps have "c \<in> set ps" by auto
      with fr have "freed (?h c) \<noteq> 0" "blk_end ?h c \<le> 2 ^ 64" by auto
      moreover from False have "freed (h4 c) = freed (?h c)" by (simp add: h4_def)
      ultimately show ?thesis using be4 by simp
    qed
  qed
  from so ps have sx: "sorted_wrt (\<lambda>x y. blk_end h4 x < unat y) xs"
    and sy: "sorted_wrt (\<lambda>x y. blk_end h4 x < unat y) ys"
    by (simp_all add: be4 sorted_wrt_append)
  from xs have xb: "\<forall>x\<in>set xs. blk_end h4 x \<le> unat b" by (simp add: be4)
  from ys have yb: "\<forall>y\<in>set ys. blk_end h4 b \<le> unat y" by (simp add: be4)
  from coalesce_next_ok[OF fl4 fr4 sx sy xb yb] obtain zs where
    n: "flist (coalesce_next h4 b) hd' (xs @ b # zs)" "set zs \<subseteq> set ys"
      "\<forall>c\<in>set (xs @ b # zs). freed (coalesce_next h4 b c) \<noteq> 0 \<and> blk_end (coalesce_next h4 b) c \<le> 2 ^ 64"
      "sorted_wrt (\<lambda>x y. blk_end (coalesce_next h4 b) x < unat y) xs"
      "sorted_wrt (\<lambda>x y. blk_end (coalesce_next h4 b) x < unat y) (b # zs)"
      "\<forall>x\<in>set xs. blk_end (coalesce_next h4 b) x \<le> unat b"
    by blast
  from coalesce_prev_ok[OF n(1,3,4,5,6)] obtain F where
    F: "free_list_ok (coalesce_prev (coalesce_next h4 b) pv b) hd' F" "set F \<subseteq> set (xs @ b # zs)"
    unfolding pv_def by blast
  from F(2) n(2) ps have "set F \<subseteq> insert b (set ps)" by auto
  with res F(1) show ?thesis by auto
qed

lemma moved_same: "moved p p n m = m"
  by (simp add: moved_def fun_eq_iff)

lemma free_list_ok_cong:
  assumes "free_list_ok h p ps"
    and "\<forall>c\<in>set ps. h' c = h c"
  shows "free_list_ok h' p ps"
proof -
  from assms(2) have 1: "\<forall>x\<in>set ps. next_f (h' x) = next_f (h x)"
    and 2: "\<forall>c\<in>set ps. size_f (h' c) = size_f (h c)" by simp_all
  from 2 have 3: "\<forall>c\<in>set ps. blk_end h' c = blk_end h c" by (simp add: blk_end_def)
  from assms show ?thesis
    unfolding free_list_ok_def flist_def lseg_cong[OF 1] sorted_gap_cong[OF 2]
    using 3 by simp
qed

lemma free_list_ok_remove:
  assumes "free_list_ok h p (xs @ b # ys)" and "flist h' p' (xs @ ys)"
    and "\<forall>c. c \<noteq> b \<longrightarrow> size_f (h' c) = size_f (h c) \<and> freed (h' c) = freed (h c)"
  shows "free_list_ok h' p' (xs @ ys)"
proof -
  from assms(1) have "flist h p (xs @ b # ys)" by (simp add: free_list_ok_def)
  then have "distinct (xs @ b # ys)" by (rule flist_distinct)
  then have nb: "\<forall>c\<in>set (xs @ ys). c \<noteq> b" by auto
  with assms(3) have sz: "\<forall>c\<in>set (xs @ ys). size_f (h' c) = size_f (h c)"
    and fr: "\<forall>c\<in>set (xs @ ys). freed (h' c) = freed (h c)" by simp_all
  from sz have be: "\<forall>c\<in>set (xs @ ys). blk_end h' c = blk_end h c" by (simp add: blk_end_def)
  from assms(1) have "sorted_wrt (\<lambda>x y. blk_end h x < unat y) (xs @ ys)"
    by (auto simp: free_list_ok_def sorted_wrt_append)
  then have "sorted_wrt (\<lambda>x y. blk_end h' x < unat y) (xs @ ys)"
    by (simp only: sorted_gap_cong[OF sz])
  moreover from assms(1) fr be have "\<forall>c\<in>set (xs @ ys). freed (h' c) \<noteq> 0 \<and> blk_end h' c \<le> 2 ^ 64"
    by (auto simp: free_list_ok_def)
  ultimately show ?thesis using assms(2) by (simp add: free_list_ok_def)
qed

lemma armalloc_keeps_free_list_ok:
  assumes a: "arena_key s = Some a"
    and ok: "free_list_ok (hdrs s) (freelist a) ps"
    and carve: "buffer a + offset a \<notin> set ps"
    and inplace: "\<forall>n. realloc lc (buffer a) n = 0 \<or> realloc lc (buffer a) n = buffer a"
  shows "\<exists>p s' a' ps'. armalloc A lc s n = Some (p, s') \<and> arena_key s' = Some a' \<and>
      free_list_ok (hdrs s') (freelist a') ps' \<and> set ps' \<subseteq> set ps"
proof -
  let ?h = "hdrs s" and ?al = "ALIGN A n"
  from ok have fl: "flist ?h (freelist a) ps"
    and fr: "\<forall>c\<in>set ps. freed (?h c) \<noteq> 0" by (simp_all add: free_list_ok_def)
  show ?thesis
  proof (cases "\<exists>c\<in>set ps. fits ?h ?al c")
    case True
    from split_list_first_prop[OF this]
    obtain xs b ys where ps: "ps = xs @ b # ys" and fb: "fits ?h ?al b"
      and nf: "\<forall>c\<in>set xs. \<not> fits ?h ?al c"
      by blast
    from ps fr nf have small: "\<forall>c\<in>set xs. size_f (?h c) < ?al" by (auto simp: fits_def)
    from fb have big: "?al \<le> size_f (?h b)" by (simp add: fits_def)
    from armalloc_reuses_first_fit[OF a fl[unfolded ps] fr[unfolded ps] small big, of lc]
    obtain s' a' where r: "armalloc A lc s n = Some (b + hdr_size, s')" "arena_key s' = Some a'"
      "flist (hdrs s') (freelist a') (xs @ ys)"
      "\<forall>c. c \<noteq> b \<longrightarrow> size_f (hdrs s' c) = size_f (?h c) \<and> freed (hdrs s' c) = freed (?h c)"
      by blast
    from free_list_ok_remove[OF ok[unfolded ps] r(3,4)]
    have "free_list_ok (hdrs s') (freelist a') (xs @ ys)" .
    moreover from ps have "set (xs @ ys) \<subseteq> set ps" by auto
    ultimately show ?thesis using r(1,2) by blast
  next
    case False
    then have "\<forall>c\<in>set ps. \<not> fits ?h ?al c" by simp
    from first_fit_none[OF fl this, of FreelistField]
    have ff: "first_fit ?h ?al FreelistField (freelist a) = Some None" .
    let ?req = "offset a + (?al + hdr_size)"
    let ?hb = "buffer a + offset a"
    let ?h' = "?h(?hb := \<lparr>size_f = ?al, freed = 0, next_f = 0\<rparr>)"
    from carve have keep: "\<forall>c\<in>set ps. ?h' c = ?h c" by auto
    from free_list_ok_cong[OF ok keep] have ok': "free_list_ok ?h' (freelist a) ps" .
    show ?thesis
    proof (cases "capacity a < ?req")
      case False
      with a ff have "armalloc A lc s n = Some (?hb + hdr_size,
          s\<lparr>arena_key := Some (a\<lparr>offset := ?req\<rparr>), hdrs := ?h'\<rparr>)"
        by (simp add: armalloc_def get_arena_Some Let_def)
      with ok' show ?thesis by auto
    next
      case True
      note full = this
      let ?nc = "expand_loop A ?req (capacity a)"
      from inplace have "realloc lc (buffer a) ?nc = 0 \<or> realloc lc (buffer a) ?nc = buffer a"
        by blast
      then show ?thesis
      proof
        assume "realloc lc (buffer a) ?nc = 0"
        with a ff full have "armalloc A lc s n = Some (0, s)"
          by (simp add: armalloc_def get_arena_Some Let_def arena_expand_def)
        with a ok show ?thesis by auto
      next
        assume same: "realloc lc (buffer a) ?nc = buffer a"
        show ?thesis
        proof (cases "buffer a = 0")
          case True
          with same a ff full have "armalloc A lc s n = Some (0, s)"
            by (simp add: armalloc_def get_arena_Some Let_def arena_expand_def)
          with a ok show ?thesis by auto
        next
          case False
          with same a ff full have "armalloc A lc s n = Some (?hb + hdr_size,
              s\<lparr>arena_key := Some (a\<lparr>buffer := buffer a, capacity := ?nc, offset := ?req\<rparr>),
                hdrs := ?h', bytes := bytes s\<rparr>)"
            by (simp add: armalloc_def get_arena_Some Let_def arena_expand_def moved_same)
          with ok' show ?thesis by auto
        qed
      qed
    qed
  qed
qed

lemma arfree_keeps_free_list_ok:
  assumes a: "arena_key s = Some a"
    and ok: "free_list_ok (hdrs s) (freelist a) ps"
    and p: "p \<noteq> 0 \<and> freed (hdrs s (p - hdr_size)) = 0 \<longrightarrow>
       p - hdr_size \<noteq> 0 \<and> blk_end (hdrs s) (p - hdr_size) \<le> 2 ^ 64 \<and>
       (\<forall>c\<in>set ps. blk_end (hdrs s) c \<le> unat (p - hdr_size) \<or>
                    blk_end (hdrs s) (p - hdr_size) \<le> unat c)"
  shows "\<exists>s' a' ps'. arfree A lc s p = Some s' \<and> arena_key s' = Some a' \<and>
      free_list_ok (hdrs s') (freelist a') ps' \<and> set ps' \<subseteq> insert (p - hdr_size) (set ps)"
proof (cases "p \<noteq> 0 \<and> freed (hdrs s (p - hdr_size)) = 0")
  case False
  with a have "arfree A lc s p = Some s" by (auto simp: arfree_def get_arena_Some)
  with a ok show ?thesis by auto
next
  case True
  with p have b: "p - hdr_size \<noteq> 0" "freed (hdrs s (p - hdr_size)) = 0"
      "blk_end (hdrs s) (p - hdr_size) \<le> 2 ^ 64"
      "\<forall>c\<in>set ps. blk_end (hdrs s) c \<le> unat (p - hdr_size) \<or>
                    blk_end (hdrs s) (p - hdr_size) \<le> unat c"
    by simp_all
  from insert_keeps_free_list_ok[OF ok b] obtain a' s' ps' where
    r: "freelist_insert_and_coalesce a s (p - hdr_size) = Some (a', s')"
      "free_list_ok (hdrs s') (freelist a') ps'" "set ps' \<subseteq> insert (p - hdr_size) (set ps)"
    by blast
  with True a have "arfree A lc s p = Some (s'\<lparr>arena_key := Some a'\<rparr>)"
    by (simp add: arfree_def get_arena_Some)
  with r show ?thesis by auto
qed

lemma sorted_wrt_pair:
  "sorted_wrt P xs \<Longrightarrow> x \<in> set xs \<Longrightarrow> y \<in> set xs \<Longrightarrow> x = y \<or> P x y \<or> P y x"
  by (induction xs) auto

lemma unat_end_word:
  "unat (x + hdr_size + size_f (h x)) = blk_end h x mod 2 ^ 64"
  by (simp add: blk_end_def unat_word_ariths mod_simps)

lemma free_list_ok_untouching:
  assumes ok: "free_list_ok h p ps" and x: "x \<in> set ps" and y: "y \<in> set ps"
  shows "x + hdr_size + size_f (h x) \<noteq> y"
proof
  assume t: "x + hdr_size + size_f (h x) = y"
  from ok have so: "sorted_wrt (\<lambda>x y. blk_end h x < unat y) ps"
    and bw: "\<forall>c\<in>set ps. blk_end h c \<le> 2 ^ 64"
    and fl: "lseg h p ps 0" by (simp_all add: free_list_ok_def flist_def)
  from lseg_nonzero[OF fl] y have ynz: "unat y \<noteq> 0" by (metis unat_eq_0)
  have u: "unat y = blk_end h x mod 2 ^ 64" unfolding t[symmetric] by (rule unat_end_word)
  from bw x have le: "blk_end h x \<le> 2 ^ 64" by simp
  from u ynz le have lt: "blk_end h x < 2 ^ 64"
    by (metis le_neq_implies_less mod_self)
  with u have e: "unat y = blk_end h x" by simp
  from sorted_wrt_pair[OF so x y] have "x = y \<or> blk_end h x < unat y \<or> blk_end h y < unat x" .
  with e blk_end_gt[of x h] blk_end_gt[of y h] show False by auto
qed

lemma free_list_ok_meaning:
  assumes "free_list_ok h p ps"
  shows "flist h p ps \<and> sorted_wrt (<) ps \<and>
    (\<forall>x\<in>set ps. \<forall>y\<in>set ps. x + hdr_size + size_f (h x) \<noteq> y)"
  using assms free_list_ok_strict[OF assms] free_list_ok_untouching[OF assms]
  by (simp add: free_list_ok_def)

lemma first_fit_is_lowest:
  assumes ok: "free_list_ok h p (xs @ b # ys)"
    and small: "\<forall>c\<in>set xs. size_f (h c) < al"
    and c: "c \<in> set (xs @ b # ys)" "al \<le> size_f (h c)"
  shows "b \<le> c"
proof -
  from free_list_ok_strict[OF ok] have "\<forall>y\<in>set ys. b < y" by (simp add: sorted_wrt_append)
  moreover from small c have "c \<notin> set xs" by auto
  ultimately show ?thesis using c(1) by auto
qed

section \<open>The claims\<close>

subsection \<open>C1: the free list after any sequence of calls\<close>

text \<open>
  Claim C1 says that after any sequence of Allocate, AllocateZeroed, Reallocate, Free
  and Reset calls the free list is strictly increasing by address, without two entries
  that touch. The code does not keep this: \<open>armalloc\<close> computes
  \<open>aligned + sizeof(BlockHeader)\<close> and \<open>a->offset + total\<close> without an overflow
  check, so a huge request can wrap \<open>offset\<close> back to 0 while a block at the start of
  the buffer is still on the free list. With \<open>sizeof(max_align_t) = 32\<close>, on a fresh
  thread:
  \<^verbatim>\<open>p0 = Allocate(0); p1 = Allocate(0); p2 = Allocate(0); Free(p0);
  p3 = Allocate(SIZE_MAX - 95); p4 = Allocate(100); Free(p4);\<close>
  The fifth call returns a non-null pointer and leaves \<open>offset = 0\<close>; the sixth carves
  the block at the start of the buffer again (\<open>p4 = p0\<close>) although it is still the head
  of the free list; the last call links that block to itself. The free list is then
  cyclic (so not strictly increasing), no list of headers describes it, and the next
  \<open>Allocate(200)\<close> never returns.

  What the code does keep is \<open>armalloc_keeps_free_list_ok\<close> and
  \<open>arfree_keeps_free_list_ok\<close>: a call of \<open>armalloc\<close> keeps the free list ascending
  and untouching as long as the header it carves at \<open>buffer + offset\<close> is not an
  entry of the free list (and \<open>realloc\<close> does not move the buffer), and so does a call
  of \<open>arfree\<close> on a block that overlaps no free block. The wrapped \<open>offset\<close> breaks
  the first condition.
\<close>

theorem free_list_cycle_after_offset_wraps:
  "\<exists>s1 s2 s3 s4 s5 s6 s7 ar.
     armalloc 32 libc_ok fresh 0 = Some (65560, s1) \<and>
     armalloc 32 libc_ok s1 0 = Some (65584, s2) \<and>
     armalloc 32 libc_ok s2 0 = Some (65608, s3) \<and>
     arfree 32 libc_ok s3 65560 = Some s4 \<and>
     armalloc 32 libc_ok s4 (SIZE_MAX - 95) = Some (65632, s5) \<and>
     armalloc 32 libc_ok s5 100 = Some (65560, s6) \<and>
     arfree 32 libc_ok s6 65560 = Some s7 \<and>
     arena_key s7 = Some ar \<and> freelist ar = 65536 \<and>
     next_f (hdrs s7 (freelist ar)) = freelist ar \<and>
     (\<forall>ps. \<not> flist (hdrs s7) (freelist ar) ps) \<and>
     armalloc 32 libc_ok s7 200 = None"
proof -
  have "\<exists>s1 s2 s3 s4 s5 s6 s7.
     armalloc 32 libc_ok fresh 0 = Some (65560, s1) \<and>
     armalloc 32 libc_ok s1 0 = Some (65584, s2) \<and>
     armalloc 32 libc_ok s2 0 = Some (65608, s3) \<and>
     arfree 32 libc_ok s3 65560 = Some s4 \<and>
     armalloc 32 libc_ok s4 (SIZE_MAX - 95) = Some (65632, s5) \<and>
     armalloc 32 libc_ok s5 100 = Some (65560, s6) \<and>
     arfree 32 libc_ok s6 65560 = Some s7 \<and>
     arena_key s7 = Some \<lparr>buffer = 65536, capacity = 5242880, offset = 152, freelist = 65536\<rparr> \<and>
     hdrs s7 65536 = \<lparr>size_f = 128, freed = 1, next_f = 65536\<rparr>"
    by (simp add: api_defs first_fit.simps find_pos.simps fresh_def libc_ok_def SIZE_MAX_def)
  then obtain s1 s2 s3 s4 s5 s6 s7 where
    run: "armalloc 32 libc_ok fresh 0 = Some (65560, s1)"
      "armalloc 32 libc_ok s1 0 = Some (65584, s2)"
      "armalloc 32 libc_ok s2 0 = Some (65608, s3)"
      "arfree 32 libc_ok s3 65560 = Some s4"
      "armalloc 32 libc_ok s4 (SIZE_MAX - 95) = Some (65632, s5)"
      "armalloc 32 libc_ok s5 100 = Some (65560, s6)"
      "arfree 32 libc_ok s6 65560 = Some s7"
    and ar: "arena_key s7 = Some \<lparr>buffer = 65536, capacity = 5242880, offset = 152, freelist = 65536\<rparr>"
    and hd: "hdrs s7 65536 = \<lparr>size_f = 128, freed = 1, next_f = 65536\<rparr>"
    by blast
  let ?ar = "\<lparr>buffer = 65536, capacity = 5242880, offset = 152, freelist = 65536\<rparr>"
  have nolist: "\<forall>ps. \<not> flist (hdrs s7) (freelist ?ar) ps"
    using flist_cycle[of 65536 "hdrs s7"] hd by simp
  have "first_fit (hdrs s7) (ALIGN 32 200) FreelistField 65536 = None"
    by (rule first_fit_cycle) (simp_all add: hd fits_def ALIGN_def)
  with ar have "armalloc 32 libc_ok s7 200 = None"
    by (simp add: armalloc_def get_arena_Some)
  with run ar hd nolist show ?thesis by auto
qed

subsection \<open>C2: first fit, whole-block reuse\<close>

text \<open>
  Claim C2. On a free list whose entries all carry the freed flag, \<open>armalloc\<close> passes
  over the entries \<open>xs\<close> whose recorded size is below \<open>ALIGN(size)\<close> and takes the
  first entry \<open>b\<close> whose size is at least \<open>ALIGN(size)\<close>: it returns the payload
  address of \<open>b\<close>, the free list becomes \<open>xs @ ys\<close>, \<open>b\<close> is marked live with a null
  link and its recorded size is unchanged (no other header changes its size or flag,
  the bump region and the payload bytes are untouched). On an ascending free list the
  list order is the address order, and \<open>b\<close> is the lowest-addressed entry whose size
  is at least \<open>ALIGN(size)\<close>.

  The scenario, on a thread without an arena whose first call creates it in a buffer
  \<open>buf\<close> (for an alignment unit of 8, 16 or 32 bytes), whatever the C library does in
  the later calls: \<open>a = Allocate(100)\<close> returns \<open>buf + headerSize\<close>;
  \<open>b = Allocate(50)\<close> returns the next block, \<open>a + ALIGN(100) + headerSize\<close>; both
  are non-null and different; \<open>Free(a)\<close> makes the block of \<open>a\<close> the only entry of
  the free list, with the freed flag (the block of \<open>b\<close> stays live);
  \<open>c = Allocate(80)\<close> returns \<open>c = a\<close>, leaves the free list empty and the offset
  where it was, and the block is live again with its recorded size \<open>ALIGN(100)\<close>,
  which is more than \<open>ALIGN(80)\<close>: it is not split.
\<close>

theorem armalloc_first_fit_reuse:
  "(arena_key s = Some a \<and> flist (hdrs s) (freelist a) (xs @ b # ys) \<and>
    (\<forall>c\<in>set (xs @ b # ys). freed (hdrs s c) \<noteq> 0) \<and>
    (\<forall>c\<in>set xs. size_f (hdrs s c) < ALIGN A n) \<and> ALIGN A n \<le> size_f (hdrs s b) \<longrightarrow>
    (\<exists>s' a'. armalloc A lc s n = Some (b + hdr_size, s') \<and> arena_key s' = Some a' \<and>
       flist (hdrs s') (freelist a') (xs @ ys) \<and>
       freed (hdrs s' b) = 0 \<and> next_f (hdrs s' b) = 0 \<and> size_f (hdrs s' b) = size_f (hdrs s b) \<and>
       buffer a' = buffer a \<and> capacity a' = capacity a \<and> offset a' = offset a \<and>
       bytes s' = bytes s \<and>
       (\<forall>c. c \<noteq> b \<longrightarrow> size_f (hdrs s' c) = size_f (hdrs s c) \<and> freed (hdrs s' c) = freed (hdrs s c))))
   \<and>
   (free_list_ok (hdrs s) (freelist a) (xs @ b # ys) \<and>
    (\<forall>c\<in>set xs. size_f (hdrs s c) < ALIGN A n) \<and>
    c \<in> set (xs @ b # ys) \<and> ALIGN A n \<le> size_f (hdrs s c) \<longrightarrow> b \<le> c)
   \<and>
   ((A = 8 \<or> A = 16 \<or> A = 32) \<and> arena_key s0 = None \<and> malloc lc0 sizeof_ThreadArena \<noteq> 0 \<and>
    in_address_space (malloc lc0 (ALIGN A MIN_THREAD_STACK)) (ALIGN A MIN_THREAD_STACK) \<longrightarrow>
    (\<exists>pa pb pc s1 s2 s3 s4 a3 a4.
       armalloc A lc0 s0 100 = Some (pa, s1) \<and> armalloc A lc1 s1 50 = Some (pb, s2) \<and>
       arfree A lc2 s2 pa = Some s3 \<and> armalloc A lc3 s3 80 = Some (pc, s4) \<and>
       pa = malloc lc0 (ALIGN A MIN_THREAD_STACK) + hdr_size \<and>
       pb = pa + ALIGN A 100 + hdr_size \<and> pa \<noteq> 0 \<and> pb \<noteq> 0 \<and> pb \<noteq> pa \<and> pc = pa \<and>
       arena_key s3 = Some a3 \<and> freelist a3 = pa - hdr_size \<and>
       freed (hdrs s3 (pa - hdr_size)) \<noteq> 0 \<and> next_f (hdrs s3 (pa - hdr_size)) = 0 \<and>
       freed (hdrs s3 (pb - hdr_size)) = 0 \<and>
       arena_key s4 = Some a4 \<and> freelist a4 = 0 \<and> offset a4 = offset a3 \<and>
       freed (hdrs s4 (pa - hdr_size)) = 0 \<and> size_f (hdrs s4 (pa - hdr_size)) = ALIGN A 100 \<and>
       ALIGN A 80 < ALIGN A 100))"
  using armalloc_reuses_first_fit[of s a xs b ys A n lc] reuse_scenario[of A s0 lc0 lc1 lc2 lc3]
    first_fit_is_lowest[of "hdrs s" "freelist a" xs b ys "ALIGN A n" c]
  by blast

text \<open>
  The theorem on the free list of \<open>two_free\<close>, for a request of 100 bytes (the block at
  65536 is too small, the block at 65680 is taken), and on the scenario run on
  \<open>fresh\<close>: \<open>a = c = 65560\<close> and \<open>b = 65712\<close>.
\<close>

theorem armalloc_first_fit_reuse_witness:
  "(\<exists>s' a'. armalloc 32 libc_ok two_free 100 = Some (65704, s') \<and> arena_key s' = Some a' \<and>
       flist (hdrs s') (freelist a') [65536] \<and>
       freed (hdrs s' 65680) = 0 \<and> next_f (hdrs s' 65680) = 0 \<and>
       size_f (hdrs s' 65680) = size_f (hdrs two_free 65680) \<and>
       offset a' = 296 \<and> bytes s' = bytes two_free)
   \<and>
   free_list_ok (hdrs two_free) 65536 [65536, 65680]
   \<and>
   (\<exists>s1 s2 s3 s4 a3 a4.
       armalloc 32 libc_ok fresh 100 = Some (65560, s1) \<and> armalloc 32 libc_ok s1 50 = Some (65712, s2) \<and>
       arfree 32 libc_ok s2 65560 = Some s3 \<and> armalloc 32 libc_ok s3 80 = Some (65560, s4) \<and>
       arena_key s3 = Some a3 \<and> freelist a3 = 65536 \<and> freed (hdrs s3 65536) \<noteq> 0 \<and>
       arena_key s4 = Some a4 \<and> freelist a4 = 0 \<and> offset a4 = offset a3 \<and>
       freed (hdrs s4 65536) = 0 \<and> size_f (hdrs s4 65536) = 128)"
proof -
  have 1: "arena_key two_free = Some \<lparr>buffer = 65536, capacity = 5242880, offset = 296, freelist = 65536\<rparr> \<and>
      flist (hdrs two_free) (freelist \<lparr>buffer = 65536, capacity = 5242880, offset = 296, freelist = 65536\<rparr>) ([65536] @ 65680 # []) \<and>
      (\<forall>c\<in>set ([65536] @ 65680 # []). freed (hdrs two_free c) \<noteq> 0) \<and>
      (\<forall>c\<in>set [65536]. size_f (hdrs two_free c) < ALIGN 32 100) \<and>
      ALIGN 32 100 \<le> size_f (hdrs two_free 65680)"
    by (simp add: two_free_def flist_def ALIGN_def)
  have 2: "((32::size_t) = 8 \<or> (32::size_t) = 16 \<or> (32::size_t) = 32) \<and> arena_key fresh = None \<and>
      malloc libc_ok sizeof_ThreadArena \<noteq> 0 \<and>
      in_address_space (malloc libc_ok (ALIGN 32 MIN_THREAD_STACK)) (ALIGN 32 MIN_THREAD_STACK)"
    by (simp add: fresh_def libc_ok_def sizeof_ThreadArena_def in_address_space_def
        ALIGN_def MIN_THREAD_STACK_def)
  have 3: "free_list_ok (hdrs two_free) 65536 [65536, 65680]"
    by (simp add: free_list_ok_def flist_def blk_end_def two_free_def hdr_size_def)
  have 4: "malloc libc_ok (ALIGN 32 MIN_THREAD_STACK) + hdr_size = 65560"
    "(65560 :: addr) + ALIGN 32 100 + hdr_size = 65712" "(65560 :: addr) - hdr_size = 65536"
    "ALIGN 32 100 = 128"
    by (simp_all add: libc_ok_def ALIGN_def MIN_THREAD_STACK_def hdr_size_def)
  note inst = armalloc_first_fit_reuse[of two_free
      "\<lparr>buffer = 65536, capacity = 5242880, offset = 296, freelist = 65536\<rparr>"
      "[65536]" 65680 "[]" 32 100 libc_ok 65680 fresh libc_ok libc_ok libc_ok libc_ok]
  from inst 1
  have a': "\<exists>s' a'. armalloc 32 libc_ok two_free 100 = Some (65704, s') \<and> arena_key s' = Some a' \<and>
       flist (hdrs s') (freelist a') [65536] \<and>
       freed (hdrs s' 65680) = 0 \<and> next_f (hdrs s' 65680) = 0 \<and>
       size_f (hdrs s' 65680) = size_f (hdrs two_free 65680) \<and>
       offset a' = 296 \<and> bytes s' = bytes two_free"
    by (simp add: hdr_size_def) blast
  from inst 2
  have b: "\<exists>pa pb pc s1 s2 s3 s4 a3 a4.
       armalloc 32 libc_ok fresh 100 = Some (pa, s1) \<and> armalloc 32 libc_ok s1 50 = Some (pb, s2) \<and>
       arfree 32 libc_ok s2 pa = Some s3 \<and> armalloc 32 libc_ok s3 80 = Some (pc, s4) \<and>
       pa = malloc libc_ok (ALIGN 32 MIN_THREAD_STACK) + hdr_size \<and>
       pb = pa + ALIGN 32 100 + hdr_size \<and> pa \<noteq> 0 \<and> pb \<noteq> 0 \<and> pb \<noteq> pa \<and> pc = pa \<and>
       arena_key s3 = Some a3 \<and> freelist a3 = pa - hdr_size \<and>
       freed (hdrs s3 (pa - hdr_size)) \<noteq> 0 \<and> next_f (hdrs s3 (pa - hdr_size)) = 0 \<and>
       freed (hdrs s3 (pb - hdr_size)) = 0 \<and>
       arena_key s4 = Some a4 \<and> freelist a4 = 0 \<and> offset a4 = offset a3 \<and>
       freed (hdrs s4 (pa - hdr_size)) = 0 \<and> size_f (hdrs s4 (pa - hdr_size)) = ALIGN 32 100 \<and>
       ALIGN 32 80 < ALIGN 32 100"
    by blast
  from b obtain pa pb pc s1 s2 s3 s4 a3 a4 where
    r: "armalloc 32 libc_ok fresh 100 = Some (pa, s1)" "armalloc 32 libc_ok s1 50 = Some (pb, s2)"
       "arfree 32 libc_ok s2 pa = Some s3" "armalloc 32 libc_ok s3 80 = Some (pc, s4)"
    and e: "pa = malloc libc_ok (ALIGN 32 MIN_THREAD_STACK) + hdr_size"
       "pb = pa + ALIGN 32 100 + hdr_size" "pc = pa"
    and q: "arena_key s3 = Some a3" "freelist a3 = pa - hdr_size"
       "freed (hdrs s3 (pa - hdr_size)) \<noteq> 0"
       "arena_key s4 = Some a4" "freelist a4 = 0" "offset a4 = offset a3"
       "freed (hdrs s4 (pa - hdr_size)) = 0" "size_f (hdrs s4 (pa - hdr_size)) = ALIGN 32 100"
    by blast
  from e 4 have v: "pa = 65560" "pb = 65712" "pc = 65560" by simp_all
  from r q have c: "\<exists>s1 s2 s3 s4 a3 a4.
       armalloc 32 libc_ok fresh 100 = Some (65560, s1) \<and> armalloc 32 libc_ok s1 50 = Some (65712, s2) \<and>
       arfree 32 libc_ok s2 65560 = Some s3 \<and> armalloc 32 libc_ok s3 80 = Some (65560, s4) \<and>
       arena_key s3 = Some a3 \<and> freelist a3 = 65536 \<and> freed (hdrs s3 65536) \<noteq> 0 \<and>
       arena_key s4 = Some a4 \<and> freelist a4 = 0 \<and> offset a4 = offset a3 \<and>
       freed (hdrs s4 65536) = 0 \<and> size_f (hdrs s4 65536) = 128"
    unfolding v 4 by blast
  from a' 3 c show ?thesis by blast
qed

subsection \<open>C3: Free is idempotent\<close>

text \<open>
  Claim C3. \<open>arfree\<close> has no failure result. \<open>Free(null)\<close> changes nothing. When the
  thread has an arena and a first \<open>Free(p)\<close> has returned, a second \<open>Free(p)\<close> leaves
  the whole memory (arena fields, headers, payload) exactly as the first call left it,
  whatever the C library does: the header of \<open>p\<close> carries the freed flag, so nothing is
  inserted again. And the first call does return whenever the free list is a
  null-terminated list.
\<close>

theorem arfree_idempotent:
  "arfree A lc s 0 = Some s \<and>
   (arena_key s \<noteq> None \<and> arfree A lc s p = Some s1 \<longrightarrow> arfree A lc' s1 p = Some s1) \<and>
   (arena_key s = Some a \<and> flist (hdrs s) (freelist a) ps \<longrightarrow> (\<exists>s1. arfree A lc s p = Some s1))"
  using arfree_null[of A lc s] arfree_twice[of s A lc p s1 lc'] arfree_returns[of s a ps A lc p]
  by blast

text \<open>The theorem on \<open>two_live\<close>, freeing the first block (payload address 65560) twice.\<close>

theorem arfree_idempotent_witness:
  "arfree 32 libc_ok two_live 0 = Some two_live \<and>
   (\<exists>s1 a1. arfree 32 libc_ok two_live 65560 = Some s1 \<and> arena_key s1 = Some a1 \<and>
      freelist a1 = 65536 \<and> freed (hdrs s1 65536) = 1 \<and>
      arfree 32 libc_full s1 65560 = Some s1)"
proof -
  obtain s1 where 1: "arfree 32 libc_ok two_live 65560 = Some s1"
    and 2: "arena_key s1 = Some \<lparr>buffer = 65536, capacity = 5242880, offset = 240, freelist = 65536\<rparr>"
    and 3: "freed (hdrs s1 65536) = 1"
    by (simp add: api_defs find_pos.simps two_live_def)
  have 0: "arena_key two_live \<noteq> None" by (simp add: two_live_def)
  from arfree_idempotent[of 32 libc_ok two_live 65560 s1 libc_full] 0 1 2 3
  show ?thesis by simp
qed

subsection \<open>C4: the overflow check of AllocateZeroed\<close>

text \<open>
  Claim C4 says that \<open>AllocateZeroed(count, size)\<close> returns null, before it allocates,
  when \<open>size \<noteq> 0\<close> and \<open>count > SIZE_MAX / size\<close>, and that it otherwise behaves as
  \<open>Allocate(count * size)\<close> followed by zero-filling the \<open>count * size\<close> returned
  bytes. The check is in the code (under the comment \<open>Overflow check\<close>), it fires
  exactly when the product does not fit in 64 bits, and it leaves the memory as it was
  (\<open>arcalloc_overflow\<close>, \<open>overflow_check_exact\<close>); and whenever the \<open>count * size\<close>
  bytes from the pointer that \<open>armalloc\<close> returns lie in the buffer, \<open>arcalloc\<close>
  returns that pointer with these bytes zero, every header stored among them zeroed
  with them, and all other bytes and headers as \<open>armalloc\<close> left them
  (\<open>arcalloc_zero_fills\<close>, and \<open>zero_fill_clears_absorbed_header\<close> for a block that
  coalescing has made of two).

  But the check guards the product only. \<open>armalloc\<close> rounds the product up and adds
  the header size without a check (the defect reported for C1), so that it can return a
  block that does not hold \<open>count * size\<close> bytes. With \<open>sizeof(max_align_t) = 32\<close>, on
  a fresh thread, \<open>AllocateZeroed(SIZE_MAX, 1)\<close> passes the check
  (\<open>SIZE_MAX / 1 = SIZE_MAX\<close>); \<open>ALIGN(SIZE_MAX)\<close> wraps around to 0 and \<open>armalloc\<close>
  returns the non-null pointer 65560 to a block of 0 bytes, 24 bytes into the buffer
  of 5 MiB at 65536; \<open>memset\<close> is then told to write \<open>SIZE_MAX\<close> zero bytes from
  there, which leaves the buffer (5242856 bytes of it are left from 65560 on): the
  call does not return a zero-filled block.
\<close>

theorem arcalloc_zero_fill_leaves_buffer:
  "\<exists>s1. SIZE_MAX div 1 = SIZE_MAX \<and> ALIGN 32 (SIZE_MAX * 1) = 0 \<and>
     armalloc 32 libc_ok fresh (SIZE_MAX * 1) = Some (65560, s1) \<and>
     arena_key s1 = Some \<lparr>buffer = 65536, capacity = 5242880, offset = 24, freelist = 0\<rparr> \<and>
     hdrs s1 (65560 - hdr_size) = \<lparr>size_f = 0, freed = 0, next_f = 0\<rparr> \<and>
     in_buffer s1 65560 0 \<and> in_buffer s1 65560 5242856 \<and> \<not> in_buffer s1 65560 5242857 \<and>
     \<not> in_buffer s1 65560 (SIZE_MAX * 1) \<and>
     arcalloc 32 libc_ok fresh SIZE_MAX 1 = Some (Inl Out_of_bounds)"
  by (simp add: arcalloc_def api_defs first_fit.simps fresh_def libc_ok_def SIZE_MAX_def
      in_buffer_def unsigned_minus_1_eq_mask mask_eq_exp_minus_1)

subsection \<open>C5: shrinking in place\<close>

text \<open>
  Claim C5. For a non-null \<open>p\<close> of a thread with an arena, when
  \<open>ALIGN(newSize) \<le> header.size\<close>, \<open>arrealloc\<close> returns \<open>p\<close> itself; the header of
  \<open>p\<close> now records \<open>ALIGN(newSize)\<close>; every payload byte (so the first \<open>newSize\<close>
  bytes of the block) is unchanged; the arena, every other header, and the freed flag
  and link of every header are unchanged, so the free list is what it was: the tail is
  not put on it.
\<close>

theorem arrealloc_shrink_in_place:
  "arena_key s = Some a \<and> p \<noteq> 0 \<and> ALIGN A n \<le> size_f (hdrs s (p - hdr_size)) \<longrightarrow>
   (\<exists>s'. arrealloc A lc s p n = Some (p, s') \<and>
      size_f (hdrs s' (p - hdr_size)) = ALIGN A n \<and>
      bytes s' = bytes s \<and> arena_key s' = Some a \<and>
      (\<forall>q. freed (hdrs s' q) = freed (hdrs s q) \<and> next_f (hdrs s' q) = next_f (hdrs s q)) \<and>
      (\<forall>q. q \<noteq> p - hdr_size \<longrightarrow> hdrs s' q = hdrs s q) \<and>
      (\<forall>ps. flist (hdrs s') (freelist a) ps = flist (hdrs s) (freelist a) ps))"
proof
  assume h: "arena_key s = Some a \<and> p \<noteq> 0 \<and> ALIGN A n \<le> size_f (hdrs s (p - hdr_size))"
  let ?s' = "s\<lparr>hdrs := (hdrs s)(p - hdr_size := (hdrs s (p - hdr_size))\<lparr>size_f := ALIGN A n\<rparr>)\<rparr>"
  from h have r: "arrealloc A lc s p n = Some (p, ?s')" by (simp add: arrealloc_shrink)
  have nx: "\<forall>x. next_f (hdrs ?s' x) = next_f (hdrs s x)" by simp
  have "\<forall>ps. flist (hdrs ?s') (freelist a) ps = flist (hdrs s) (freelist a) ps"
    unfolding flist_def using lseg_next_cong[OF nx] by blast
  with r h show "\<exists>s'. arrealloc A lc s p n = Some (p, s') \<and>
      size_f (hdrs s' (p - hdr_size)) = ALIGN A n \<and>
      bytes s' = bytes s \<and> arena_key s' = Some a \<and>
      (\<forall>q. freed (hdrs s' q) = freed (hdrs s q) \<and> next_f (hdrs s' q) = next_f (hdrs s q)) \<and>
      (\<forall>q. q \<noteq> p - hdr_size \<longrightarrow> hdrs s' q = hdrs s q) \<and>
      (\<forall>ps. flist (hdrs s') (freelist a) ps = flist (hdrs s) (freelist a) ps)"
    by simp
qed

text \<open>The theorem on \<open>two_live\<close>: the 128-byte block at 65560 is shrunk to 10 bytes.\<close>

theorem arrealloc_shrink_in_place_witness:
  "\<exists>s'. arrealloc 32 libc_full two_live 65560 10 = Some (65560, s') \<and>
      size_f (hdrs s' 65536) = 32 \<and> bytes s' = bytes two_live \<and>
      arena_key s' = arena_key two_live \<and> hdrs s' 65688 = hdrs two_live 65688"
proof -
  have 1: "arena_key two_live = Some \<lparr>buffer = 65536, capacity = 5242880, offset = 240, freelist = 0\<rparr> \<and>
      (65560 :: addr) \<noteq> 0 \<and> ALIGN 32 10 \<le> size_f (hdrs two_live (65560 - hdr_size))"
    by (simp add: two_live_def ALIGN_def hdr_size_def)
  have 2: "ALIGN 32 10 = 32" "65560 - hdr_size = 65536" "(65688 :: addr) \<noteq> 65536"
    by (simp_all add: ALIGN_def hdr_size_def)
  from arrealloc_shrink_in_place[of two_live
      "\<lparr>buffer = 65536, capacity = 5242880, offset = 240, freelist = 0\<rparr>" 65560 32 10 libc_full] 1
  show ?thesis unfolding 2 using 2(3) by auto
qed

subsection \<open>C6: Reallocate when growth fails\<close>

text \<open>
  Claim C6. \<open>Reallocate(p, newSize)\<close> must grow when \<open>ALIGN(newSize)\<close> exceeds the
  recorded size of \<open>p\<close>; it then returns null whenever \<open>armalloc\<close> does, with the
  memory \<open>armalloc\<close> left. Once the arena exists, the only \<open>return NULL\<close> of
  \<open>armalloc\<close> is a failed growth: no entry of the free list fits, the bump region has
  too little room left, and \<open>realloc\<close> returns null. Then \<open>armalloc\<close> returns null,
  \<open>arrealloc\<close> returns null, and both leave the whole memory as it was: \<open>p\<close> is not
  freed, its header and its payload are unchanged.
\<close>

theorem arrealloc_growth_failure:
  "(arena_key s = Some a \<and> p \<noteq> 0 \<and> size_f (hdrs s (p - hdr_size)) < ALIGN A n \<and>
   flist (hdrs s) (freelist a) ps \<and> (\<forall>c\<in>set ps. \<not> fits (hdrs s) (ALIGN A n) c) \<and>
   capacity a < offset a + (ALIGN A n + hdr_size) \<and>
   realloc lc (buffer a) (expand_loop A (offset a + (ALIGN A n + hdr_size)) (capacity a)) = 0 \<longrightarrow>
   armalloc A lc s n = Some (0, s) \<and> arrealloc A lc s p n = Some (0, s)) \<and>
  (arena_key s = Some a \<and> p \<noteq> 0 \<and> size_f (hdrs s (p - hdr_size)) < ALIGN A n \<and>
   armalloc A lc s n = Some (0, s1) \<longrightarrow> arrealloc A lc s p n = Some (0, s1))"
  using armalloc_growth_fails[of s a ps A n lc] arrealloc_growth_fails[of s a p A n ps lc]
    arrealloc_null_propagates[of s a p A n lc s1]
  by blast

text \<open>
  The theorem on \<open>two_free\<close>, growing the live 64-byte block (payload address 65616) to
  6 MiB with a C library whose \<open>realloc\<close> fails.
\<close>

theorem arrealloc_growth_failure_witness:
  "size_f (hdrs two_free (65616 - hdr_size)) < ALIGN 32 6291456 \<and>
   armalloc 32 libc_full two_free 6291456 = Some (0, two_free) \<and>
   arrealloc 32 libc_full two_free 65616 6291456 = Some (0, two_free)"
proof -
  have 1: "arena_key two_free = Some \<lparr>buffer = 65536, capacity = 5242880, offset = 296, freelist = 65536\<rparr>"
    by (simp add: two_free_def)
  have 2: "(65616 :: addr) \<noteq> 0 \<and> size_f (hdrs two_free (65616 - hdr_size)) < ALIGN 32 6291456"
    by (simp add: two_free_def ALIGN_def hdr_size_def)
  have 3: "flist (hdrs two_free) (freelist \<lparr>buffer = 65536, capacity = 5242880, offset = 296, freelist = 65536\<rparr>) [65536, 65680] \<and>
      (\<forall>c\<in>set [65536, 65680]. \<not> fits (hdrs two_free) (ALIGN 32 6291456) c)"
    by (simp add: two_free_def flist_def fits_def ALIGN_def)
  have 4: "capacity \<lparr>buffer = 65536, capacity = 5242880, offset = 296, freelist = 65536\<rparr>
        < offset \<lparr>buffer = 65536, capacity = 5242880, offset = 296, freelist = 65536\<rparr>
          + (ALIGN 32 6291456 + hdr_size)"
    by (simp add: ALIGN_def hdr_size_def)
  have 5: "realloc libc_full (buffer \<lparr>buffer = 65536, capacity = 5242880, offset = 296, freelist = 65536\<rparr>)
       (expand_loop 32 (offset \<lparr>buffer = 65536, capacity = 5242880, offset = 296, freelist = 65536\<rparr>
          + (ALIGN 32 6291456 + hdr_size))
          (capacity \<lparr>buffer = 65536, capacity = 5242880, offset = 296, freelist = 65536\<rparr>)) = 0"
    by (simp add: libc_full_def)
  from arrealloc_growth_failure[of two_free
      "\<lparr>buffer = 65536, capacity = 5242880, offset = 296, freelist = 65536\<rparr>"
      65616 32 6291456 "[65536, 65680]" libc_full two_free] 1 2 3 4 5
  show ?thesis by blast
qed

subsection \<open>C7: recorded sizes and the alignment unit\<close>

text \<open>
  Claim C7 says that every header's recorded size is a multiple of the alignment unit,
  also after coalescing; the comment on the field (\<open>aligned user size\<close>) says the same.
  The code breaks it: coalescing adds \<open>sizeof(BlockHeader) = 24\<close> to a sum of aligned
  sizes, and 24 is not a multiple of \<open>sizeof(max_align_t)\<close> when that is 16 or 32. With
  \<open>sizeof(max_align_t) = 32\<close>, on a fresh thread,
  \<open>a = Allocate(100); b = Allocate(100); Free(a); Free(b)\<close> leaves one free block of
  recorded size \<open>128 + 24 + 128 = 280\<close>, which is not a multiple of 32.
\<close>

theorem coalesced_size_not_aligned:
  "\<exists>s1 s2 s3 s4 ar.
     armalloc 32 libc_ok fresh 100 = Some (65560, s1) \<and>
     armalloc 32 libc_ok s1 100 = Some (65712, s2) \<and>
     is_aligned 32 (size_f (hdrs s2 65536)) \<and> is_aligned 32 (size_f (hdrs s2 65688)) \<and>
     arfree 32 libc_ok s2 65560 = Some s3 \<and>
     arfree 32 libc_ok s3 65712 = Some s4 \<and>
     arena_key s4 = Some ar \<and> freelist ar = 65536 \<and> next_f (hdrs s4 65536) = 0 \<and>
     size_f (hdrs s4 65536) = 280 \<and>
     \<not> is_aligned 32 (size_f (hdrs s4 65536))"
  by (simp add: api_defs first_fit.simps find_pos.simps fresh_def libc_ok_def is_aligned_def)

subsection \<open>C8: offset, capacity and growth\<close>

text \<open>
  Claim C8 fails in two places. With \<open>sizeof(max_align_t) = 32\<close>, \<open>Allocate(20 MiB)\<close> on
  a fresh thread needs \<open>20971544\<close> bytes; \<open>arena_expand\<close> doubles the capacity of 5 MiB
  once and, as 10 MiB is still too small, sets it to exactly \<open>20971544\<close>: the new
  capacity is not a multiple of 32, and it is not the old capacity doubled any number
  of times.
\<close>

theorem capacity_clamped_counterexample:
  "\<exists>p s1 a1. armalloc 32 libc_ok fresh 20971520 = Some (p, s1) \<and> p \<noteq> 0 \<and>
     arena_key s1 = Some a1 \<and> capacity a1 = 20971544 \<and>
     \<not> is_aligned 32 (capacity a1) \<and>
     (\<forall>k. capacity a1 \<noteq> ALIGN 32 MIN_THREAD_STACK * 2 ^ k)"
proof -
  have "\<exists>p s1 a1. armalloc 32 libc_ok fresh 20971520 = Some (p, s1) \<and> p \<noteq> 0 \<and>
     arena_key s1 = Some a1 \<and> capacity a1 = 20971544 \<and> \<not> is_aligned 32 (capacity a1)"
    by (simp add: api_defs first_fit.simps fresh_def libc_ok_def expand_loop_once is_aligned_def)
  moreover have "ALIGN 32 MIN_THREAD_STACK = 5242880"
    by (simp add: ALIGN_def MIN_THREAD_STACK_def)
  ultimately show ?thesis using not_a_doubling by auto
qed

text \<open>
  Claim C8 as amended. \<open>offset \<le> capacity\<close> holds after every sequence of calls that
  starts from a memory where it holds, in particular from a thread without an arena;
  the capacity is aligned when the arena is created; a growth that succeeds leaves
  a capacity of at least the required total: twice the old capacity when that is
  enough, otherwise exactly the required total (for an old capacity of 0, the aligned
  required total, or the required total itself when aligning wrapped around); and
  doubling keeps a capacity aligned (for an alignment unit \<open>2^k\<close>).
\<close>

theorem offset_within_capacity:
  "(cap_ok s \<and> run A cs s = Some s' \<longrightarrow> cap_ok s') \<and>
   (arena_key s = None \<longrightarrow> cap_ok s) \<and>
   (arena_key s = None \<and> get_arena A lc s = (Some a, s1) \<longrightarrow>
      is_aligned A (capacity a) \<and> offset a = 0) \<and>
   (fst (arena_expand A lc a0 s r) = 0 \<longrightarrow>
      r \<le> capacity (fst (snd (arena_expand A lc a0 s r))) \<and>
      capacity (fst (snd (arena_expand A lc a0 s r))) =
        (if capacity a0 < r then
           (if capacity a0 \<noteq> 0 then (if capacity a0 * 2 < r then r else capacity a0 * 2)
            else (if ALIGN A r < r then r else ALIGN A r))
         else capacity a0)) \<and>
   (is_aligned (2 ^ k) c \<longrightarrow> is_aligned (2 ^ k) (c * GROWTH_FACTOR))"
  using run_cap_ok[of A cs s s'] created_arena_aligned[of s A lc a s1]
    arena_expand_capacity_fst[of A lc a0 s r] doubling_keeps_aligned[of k c]
  by (auto simp: cap_ok_def GROWTH_FACTOR_def)

text \<open>
  The theorem on a sequence of six calls on \<open>fresh\<close>, the last of which grows the
  buffer, and on the two ways a capacity of 5 MiB grows.
\<close>

theorem offset_within_capacity_witness:
  "(\<exists>s'. run 32 [(libc_ok, Allocate 100), (libc_ok, AllocateZeroed 4 25),
                 (libc_full, Reallocate 65560 300), (libc_ok, Free 65712),
                 (libc_ok, Reset), (libc_ok, Allocate 20971520)] fresh = Some s' \<and> cap_ok s') \<and>
   is_aligned 32 (capacity \<lparr>buffer = 65536, capacity = ALIGN 32 MIN_THREAD_STACK, offset = 0, freelist = 0\<rparr>) \<and>
   capacity (fst (snd (arena_expand 32 libc_ok
      \<lparr>buffer = 65536, capacity = 5242880, offset = 0, freelist = 0\<rparr> fresh 8388632))) = 10485760 \<and>
   capacity (fst (snd (arena_expand 32 libc_ok
      \<lparr>buffer = 65536, capacity = 5242880, offset = 0, freelist = 0\<rparr> fresh 20971544))) = 20971544 \<and>
   is_aligned (2 ^ 5) (5242880 * GROWTH_FACTOR)"
proof -
  let ?cs = "[(libc_ok, Allocate 100), (libc_ok, AllocateZeroed 4 25),
                 (libc_full, Reallocate 65560 300), (libc_ok, Free 65712),
                 (libc_ok, Reset), (libc_ok, Allocate 20971520)]"
  let ?a0 = "\<lparr>buffer = 65536, capacity = 5242880, offset = 0, freelist = 0\<rparr>"
  obtain s' where r: "run 32 ?cs fresh = Some s'"
    by (simp add: api_defs arcalloc_def arrealloc_def arreset_def SIZE_MAX_def first_fit.simps
        find_pos.simps fresh_def libc_ok_def libc_full_def expand_loop_once in_buffer_def
        memset_simps(1) memcpy_simps(1) hdrs_memset_outside hdrs_memcpy_outside)
  have f: "arena_key fresh = None" by (simp add: fresh_def)
  have g: "get_arena 32 libc_ok fresh =
      (Some \<lparr>buffer = 65536, capacity = ALIGN 32 MIN_THREAD_STACK, offset = 0, freelist = 0\<rparr>,
       fresh\<lparr>arena_key := Some \<lparr>buffer = 65536, capacity = ALIGN 32 MIN_THREAD_STACK, offset = 0, freelist = 0\<rparr>\<rparr>)"
    by (simp add: get_arena_def fresh_def libc_ok_def sizeof_ThreadArena_def Let_def
        ALIGN_def MIN_THREAD_STACK_def)
  have al: "is_aligned (2 ^ 5) 5242880" by (simp add: is_aligned_def)
  have e1: "fst (arena_expand 32 libc_ok ?a0 fresh 8388632) = 0"
    and e2: "fst (arena_expand 32 libc_ok ?a0 fresh 20971544) = 0"
    by (simp_all add: arena_expand_def libc_ok_def Let_def)
  from offset_within_capacity[of fresh 32 ?cs s' libc_ok
      "\<lparr>buffer = 65536, capacity = ALIGN 32 MIN_THREAD_STACK, offset = 0, freelist = 0\<rparr>"
      "fresh\<lparr>arena_key := Some \<lparr>buffer = 65536, capacity = ALIGN 32 MIN_THREAD_STACK, offset = 0, freelist = 0\<rparr>\<rparr>"
      ?a0 8388632 5 5242880] r f g e1 al
  have 1: "cap_ok s'"
    and 2: "is_aligned 32 (capacity \<lparr>buffer = 65536, capacity = ALIGN 32 MIN_THREAD_STACK, offset = 0, freelist = 0\<rparr>)"
    and 3: "capacity (fst (snd (arena_expand 32 libc_ok ?a0 fresh 8388632))) = 10485760"
    and 5: "is_aligned (2 ^ 5) (5242880 * GROWTH_FACTOR)"
    by simp_all
  from offset_within_capacity[of fresh 32 ?cs s' libc_ok
      "\<lparr>buffer = 65536, capacity = ALIGN 32 MIN_THREAD_STACK, offset = 0, freelist = 0\<rparr>"
      "fresh\<lparr>arena_key := Some \<lparr>buffer = 65536, capacity = ALIGN 32 MIN_THREAD_STACK, offset = 0, freelist = 0\<rparr>\<rparr>"
      ?a0 20971544] e2
  have 4: "capacity (fst (snd (arena_expand 32 libc_ok ?a0 fresh 20971544))) = 20971544"
    by simp
  from r 1 2 3 4 5 show ?thesis by blast
qed

subsection \<open>C9: the size recorded for a returned block\<close>

text \<open>
  Claim C9 says that the header before a non-null result of \<open>Allocate(s)\<close> records
  \<open>align(s)\<close>. A block reused from the free list is returned whole and keeps the size
  it had: with \<open>sizeof(max_align_t) = 32\<close>, after \<open>a = Allocate(100); Free(a)\<close> on a
  fresh thread, \<open>Allocate(80)\<close> returns a block whose header records 128, not
  \<open>align(80) = 96\<close>.
\<close>

theorem reused_block_keeps_size_counterexample:
  "\<exists>s1 s2 c s3. armalloc 32 libc_ok fresh 100 = Some (65560, s1) \<and>
     arfree 32 libc_ok s1 65560 = Some s2 \<and>
     armalloc 32 libc_ok s2 80 = Some (c, s3) \<and> c \<noteq> 0 \<and>
     size_f (hdrs s3 (c - hdr_size)) = 128 \<and> ALIGN 32 80 = 96 \<and>
     size_f (hdrs s3 (c - hdr_size)) \<noteq> ALIGN 32 80"
  by (simp add: api_defs first_fit.simps find_pos.simps fresh_def libc_ok_def)

text \<open>
  Claim C9 as amended. The header before a non-null result of \<open>Allocate(s)\<close> records at
  least \<open>align(s)\<close>. When the first-fit search finds a free block \<open>c\<close>, the result is
  the payload of \<open>c\<close>, and \<open>c\<close> keeps the size it recorded as a free block, which is
  at least \<open>align(s)\<close>. When the search finds nothing, the block is carved from the
  bump region and records exactly \<open>align(s)\<close>. For an alignment unit \<open>2^k\<close>,
  \<open>align(s) \<ge> s\<close> whenever \<open>s + 2^k - 1\<close> does not exceed \<open>SIZE_MAX\<close>. And when
  \<open>offset + align(s) + headerSize\<close> does not exceed \<open>SIZE_MAX\<close> either, the carved
  block lies inside the buffer (a buffer that lies inside the address space, as a
  block of the C library does): its payload starts \<open>headerSize\<close> bytes after the old
  offset and its \<open>align(s)\<close> bytes end at the new offset, which is at most the
  capacity. Here \<open>a\<close> is the arena the call works on, the thread's own or the one the
  call creates. Nothing is said of a request for which one of the two sums exceeds
  \<open>SIZE_MAX\<close>.
\<close>

theorem armalloc_recorded_size:
  "(armalloc A lc s n = Some (p, s') \<and> p \<noteq> 0 \<longrightarrow>
      ALIGN A n \<le> size_f (hdrs s' (p - hdr_size))) \<and>
   (arena_key s = Some a0 \<and>
    first_fit (hdrs s) (ALIGN A n) FreelistField (freelist a0) = Some (Some (pp, c)) \<longrightarrow>
      (\<exists>s1. armalloc A lc s n = Some (c + hdr_size, s1) \<and>
         size_f (hdrs s1 c) = size_f (hdrs s c) \<and> freed (hdrs s1 c) = 0 \<and>
         freed (hdrs s c) \<noteq> 0 \<and> ALIGN A n \<le> size_f (hdrs s c))) \<and>
   (armalloc A lc s n = Some (p, s') \<and> p \<noteq> 0 \<and>
    (\<forall>a. arena_key s = Some a \<longrightarrow>
       first_fit (hdrs s) (ALIGN A n) FreelistField (freelist a) = Some None) \<longrightarrow>
      size_f (hdrs s' (p - hdr_size)) = ALIGN A n) \<and>
   (k < 64 \<and> unat n + 2 ^ k - 1 < 2 ^ 64 \<longrightarrow> n \<le> ALIGN (2 ^ k) n) \<and>
   (get_arena A lc s = (Some a, sa) \<and>
    first_fit (hdrs s) (ALIGN A n) FreelistField (freelist a) = Some None \<and>
    unat (offset a) + unat (ALIGN A n) + unat hdr_size < 2 ^ 64 \<and>
    armalloc A lc s n = Some (p, s') \<and> p \<noteq> 0 \<and> arena_key s' = Some a' \<and>
    in_address_space (buffer a') (capacity a') \<longrightarrow>
      unat p = unat (buffer a') + unat (offset a) + unat hdr_size \<and>
      unat p + unat (ALIGN A n) = unat (buffer a') + unat (offset a') \<and>
      unat (offset a') \<le> unat (capacity a') \<and>
      size_f (hdrs s' (p - hdr_size)) = ALIGN A n)"
  using armalloc_size_ge[of A lc s n p s'] armalloc_size_exact[of A lc s n p s'] ALIGN_ge[of k n]
    armalloc_reuse_keeps_size[of s a0 A n pp c lc]
    armalloc_bump_in_buffer[of A lc s a sa n p s' a']
  by blast

text \<open>
  The theorem on \<open>Allocate(100)\<close>, carved from the bump region of \<open>fresh\<close> (the call
  creates the arena; the 128 bytes of the block are the bytes 65560 to 65687 of the
  buffer that starts at 65536) and reused from the free list of \<open>two_free\<close> (the block
  at 65680 keeps its 128 bytes), and on \<open>Allocate(10)\<close> on \<open>two_free\<close>, which reuses
  the block at 65536 with its 32 bytes.
\<close>

theorem armalloc_recorded_size_witness:
  "(\<exists>s1 a1. armalloc 32 libc_ok fresh 100 = Some (65560, s1) \<and>
      size_f (hdrs s1 (65560 - hdr_size)) = ALIGN 32 100 \<and>
      arena_key s1 = Some a1 \<and> buffer a1 = 65536 \<and> offset a1 = 152 \<and>
      unat (65560 :: addr) = unat (buffer a1) + 0 + unat hdr_size \<and>
      unat (65560 :: addr) + unat (ALIGN 32 100) = unat (buffer a1) + unat (offset a1) \<and>
      unat (offset a1) \<le> unat (capacity a1)) \<and>
   (\<exists>s2. armalloc 32 libc_ok two_free 100 = Some (65704, s2) \<and>
      ALIGN 32 100 \<le> size_f (hdrs s2 (65704 - hdr_size)) \<and>
      size_f (hdrs s2 65680) = size_f (hdrs two_free 65680)) \<and>
   (\<exists>s3. armalloc 32 libc_ok two_free 10 = Some (65560, s3) \<and>
      size_f (hdrs s3 65536) = 32 \<and> freed (hdrs s3 65536) = 0) \<and>
   (100 :: size_t) \<le> ALIGN (2 ^ 5) 100"
proof -
  let ?a = "\<lparr>buffer = 65536, capacity = 5242880, offset = 0, freelist = 0\<rparr>"
  let ?a1 = "\<lparr>buffer = 65536, capacity = 5242880, offset = 152, freelist = 0\<rparr>"
  let ?af = "\<lparr>buffer = 65536, capacity = 5242880, offset = 296, freelist = 65536\<rparr>"
  obtain s1 where 1: "armalloc 32 libc_ok fresh 100 = Some (65560, s1)"
    and k1: "arena_key s1 = Some ?a1"
    by (simp add: api_defs first_fit.simps fresh_def libc_ok_def)
  obtain s2 where 2: "armalloc 32 libc_ok two_free 100 = Some (65704, s2)"
    by (simp add: api_defs first_fit.simps two_free_def)
  have 3: "\<forall>a. arena_key fresh = Some a \<longrightarrow>
       first_fit (hdrs fresh) (ALIGN 32 100) FreelistField (freelist a) = Some None"
    by (simp add: fresh_def)
  have 4: "(5 :: nat) < 64 \<and> unat (100 :: size_t) + 2 ^ 5 - 1 < 2 ^ 64" by simp
  have nz: "(65560 :: addr) \<noteq> 0" "(65704 :: addr) \<noteq> 0" by simp_all
  have 5: "get_arena 32 libc_ok fresh = (Some ?a, fresh\<lparr>arena_key := Some ?a\<rparr>)"
    by (simp add: get_arena_def fresh_def libc_ok_def sizeof_ThreadArena_def Let_def
        ALIGN_def MIN_THREAD_STACK_def)
  have 6: "first_fit (hdrs fresh) (ALIGN 32 100) FreelistField (freelist ?a) = Some None"
    by (simp add: first_fit.simps)
  have 7: "unat (offset ?a) + unat (ALIGN 32 100) + unat hdr_size < 2 ^ 64"
    by (simp add: ALIGN_def hdr_size_def)
  have 8: "in_address_space (buffer ?a1) (capacity ?a1)" by (simp add: in_address_space_def)
  have 9: "arena_key two_free = Some ?af"
    "first_fit (hdrs two_free) (ALIGN 32 100) FreelistField (freelist ?af)
       = Some (Some (NextField 65536, 65680))"
    "first_fit (hdrs two_free) (ALIGN 32 10) FreelistField (freelist ?af)
       = Some (Some (FreelistField, 65536))"
    by (simp_all add: two_free_def first_fit.simps ALIGN_def)
  from armalloc_recorded_size[of 32 libc_ok fresh 100 65560 s1 ?a FreelistField 0 5 ?a
      "fresh\<lparr>arena_key := Some ?a\<rparr>" ?a1] 1 3 4 5 6 7 8 k1 nz
  have a: "size_f (hdrs s1 (65560 - hdr_size)) = ALIGN 32 100"
    "(100 :: size_t) \<le> ALIGN (2 ^ 5) 100"
    "unat (65560 :: addr) = unat (buffer ?a1) + unat (offset ?a) + unat hdr_size"
    "unat (65560 :: addr) + unat (ALIGN 32 100) = unat (buffer ?a1) + unat (offset ?a1)"
    "unat (offset ?a1) \<le> unat (capacity ?a1)"
    by blast+
  from armalloc_recorded_size[of 32 libc_ok two_free 100 65704 s2 ?af "NextField 65536" 65680] 2 9 nz
  have b: "ALIGN 32 100 \<le> size_f (hdrs s2 (65704 - hdr_size))"
    and b2: "\<exists>s1. armalloc 32 libc_ok two_free 100 = Some (65680 + hdr_size, s1) \<and>
         size_f (hdrs s1 65680) = size_f (hdrs two_free 65680)"
    by blast+
  from b2 2 have b3: "size_f (hdrs s2 65680) = size_f (hdrs two_free 65680)"
    by (auto simp: hdr_size_def)
  from armalloc_recorded_size[of 32 libc_ok two_free 10 0 two_free ?af FreelistField 65536] 9
  have "\<exists>s1. armalloc 32 libc_ok two_free 10 = Some (65536 + hdr_size, s1) \<and>
         size_f (hdrs s1 65536) = size_f (hdrs two_free 65536) \<and> freed (hdrs s1 65536) = 0"
    by blast
  then have c: "\<exists>s3. armalloc 32 libc_ok two_free 10 = Some (65560, s3) \<and>
      size_f (hdrs s3 65536) = 32 \<and> freed (hdrs s3 65536) = 0"
    by (simp add: hdr_size_def two_free_def)
  from 1 k1 a have d: "\<exists>s1 a1. armalloc 32 libc_ok fresh 100 = Some (65560, s1) \<and>
      size_f (hdrs s1 (65560 - hdr_size)) = ALIGN 32 100 \<and>
      arena_key s1 = Some a1 \<and> buffer a1 = 65536 \<and> offset a1 = 152 \<and>
      unat (65560 :: addr) = unat (buffer a1) + 0 + unat hdr_size \<and>
      unat (65560 :: addr) + unat (ALIGN 32 100) = unat (buffer a1) + unat (offset a1) \<and>
      unat (offset a1) \<le> unat (capacity a1)"
    by simp
  from 2 b b3 have e: "\<exists>s2. armalloc 32 libc_ok two_free 100 = Some (65704, s2) \<and>
      ALIGN 32 100 \<le> size_f (hdrs s2 (65704 - hdr_size)) \<and>
      size_f (hdrs s2 65680) = size_f (hdrs two_free 65680)"
    by blast
  from d e c a(2) show ?thesis by blast
qed

subsection \<open>C10: Allocate(0)\<close>

text \<open>
  Claim C10 says that \<open>Allocate(0)\<close> never returns null once the arena exists. It does
  when the free list is empty, fewer than 24 bytes are left in the buffer and
  \<open>realloc\<close> fails: with \<open>sizeof(max_align_t) = 32\<close>, \<open>Allocate(5242848)\<close> on a fresh
  thread leaves 8 bytes of the 5 MiB buffer, and \<open>Allocate(0)\<close> then returns null when
  the buffer cannot grow.
\<close>

theorem allocate_zero_null_counterexample:
  "\<exists>p s1 a1. armalloc 32 libc_ok fresh 5242848 = Some (p, s1) \<and> p \<noteq> 0 \<and>
     arena_key s1 = Some a1 \<and> freelist a1 = 0 \<and> offset a1 = 5242872 \<and> capacity a1 = 5242880 \<and>
     armalloc 32 libc_full s1 0 = Some (0, s1)"
  by (simp add: api_defs first_fit.simps fresh_def libc_ok_def libc_full_def expand_loop_once)

text \<open>
  Claim C10 as amended, for a thread whose arena exists. When the free list is not
  empty and its head carries the freed flag (as every entry put there by \<open>Free\<close>
  does), \<open>Allocate(0)\<close> returns the head whole, whatever its size, and unlinks it; the
  head is the lowest-addressed entry of an address-ordered list. When the free list is
  empty and at least \<open>headerSize\<close> bytes are left, it carves a zero-payload block and
  advances \<open>offset\<close> by exactly \<open>headerSize\<close>. When the free list is empty and fewer
  bytes are left, it grows the buffer: it returns null, changing nothing, if
  \<open>realloc\<close> fails, and carves the block in the grown buffer otherwise. The payload
  address of a header that does not end the address space is not null.
\<close>

theorem allocate_zero:
  "(arena_key s = Some a \<and> freelist a \<noteq> 0 \<and> freed (hdrs s (freelist a)) \<noteq> 0 \<longrightarrow>
      armalloc A lc s 0 =
        Some (freelist a + hdr_size,
              s\<lparr>arena_key := Some (a\<lparr>freelist := next_f (hdrs s (freelist a))\<rparr>),
                hdrs := (hdrs s)(freelist a := (hdrs s (freelist a))\<lparr>freed := 0, next_f := 0\<rparr>)\<rparr>)) \<and>
   (flist (hdrs s) (freelist a) ps \<and> sorted_wrt (<) ps \<and> c \<in> set ps \<longrightarrow> freelist a \<le> c) \<and>
   (arena_key s = Some a \<and> freelist a = 0 \<and> \<not> capacity a < offset a + hdr_size \<longrightarrow>
      armalloc A lc s 0 =
        Some (buffer a + offset a + hdr_size,
              s\<lparr>arena_key := Some (a\<lparr>offset := offset a + hdr_size\<rparr>),
                hdrs := (hdrs s)(buffer a + offset a := \<lparr>size_f = 0, freed = 0, next_f = 0\<rparr>)\<rparr>)) \<and>
   (arena_key s = Some a \<and> freelist a = 0 \<and> capacity a < offset a + hdr_size \<and>
    realloc lc (buffer a) (expand_loop A (offset a + hdr_size) (capacity a)) = 0 \<longrightarrow>
      armalloc A lc s 0 = Some (0, s)) \<and>
   (arena_key s = Some a \<and> freelist a = 0 \<and> capacity a < offset a + hdr_size \<and>
    realloc lc (buffer a) (expand_loop A (offset a + hdr_size) (capacity a)) = nb \<and> nb \<noteq> 0 \<longrightarrow>
      (\<exists>s'. armalloc A lc s 0 = Some (nb + offset a + hdr_size, s') \<and>
         arena_key s' = Some (a\<lparr>buffer := nb,
            capacity := expand_loop A (offset a + hdr_size) (capacity a),
            offset := offset a + hdr_size\<rparr>) \<and>
         hdrs s' (nb + offset a) = \<lparr>size_f = 0, freed = 0, next_f = 0\<rparr>)) \<and>
   (q \<noteq> 0 \<and> unat q + unat hdr_size < 2 ^ 64 \<longrightarrow> q + hdr_size \<noteq> 0)"
proof (intro conjI impI)
  assume "arena_key s = Some a \<and> freelist a \<noteq> 0 \<and> freed (hdrs s (freelist a)) \<noteq> 0"
  then show "armalloc A lc s 0 =
        Some (freelist a + hdr_size,
              s\<lparr>arena_key := Some (a\<lparr>freelist := next_f (hdrs s (freelist a))\<rparr>),
                hdrs := (hdrs s)(freelist a := (hdrs s (freelist a))\<lparr>freed := 0, next_f := 0\<rparr>)\<rparr>)"
    by (simp add: armalloc0_reuse)
next
  assume "flist (hdrs s) (freelist a) ps \<and> sorted_wrt (<) ps \<and> c \<in> set ps"
  then show "freelist a \<le> c" using flist_head_lowest[of "hdrs s" "freelist a" ps c] by blast
next
  assume "arena_key s = Some a \<and> freelist a = 0 \<and> \<not> capacity a < offset a + hdr_size"
  then show "armalloc A lc s 0 =
        Some (buffer a + offset a + hdr_size,
              s\<lparr>arena_key := Some (a\<lparr>offset := offset a + hdr_size\<rparr>),
                hdrs := (hdrs s)(buffer a + offset a := \<lparr>size_f = 0, freed = 0, next_f = 0\<rparr>)\<rparr>)"
    by (simp add: armalloc0_bump)
next
  assume "arena_key s = Some a \<and> freelist a = 0 \<and> capacity a < offset a + hdr_size \<and>
    realloc lc (buffer a) (expand_loop A (offset a + hdr_size) (capacity a)) = 0"
  then show "armalloc A lc s 0 = Some (0, s)" by (simp add: armalloc0_bump)
next
  assume "arena_key s = Some a \<and> freelist a = 0 \<and> capacity a < offset a + hdr_size \<and>
    realloc lc (buffer a) (expand_loop A (offset a + hdr_size) (capacity a)) = nb \<and> nb \<noteq> 0"
  then show "\<exists>s'. armalloc A lc s 0 = Some (nb + offset a + hdr_size, s') \<and>
         arena_key s' = Some (a\<lparr>buffer := nb,
            capacity := expand_loop A (offset a + hdr_size) (capacity a),
            offset := offset a + hdr_size\<rparr>) \<and>
         hdrs s' (nb + offset a) = \<lparr>size_f = 0, freed = 0, next_f = 0\<rparr>"
    by (auto simp: armalloc0_bump Let_def)
next
  assume "q \<noteq> 0 \<and> unat q + unat hdr_size < 2 ^ 64"
  then show "q + hdr_size \<noteq> 0" by (simp add: payload_ptr_nonnull)
qed

text \<open>
  The theorem on \<open>two_free\<close> (the head of the free list, at 65536, is returned although
  it records 32 bytes), on \<open>two_live\<close> (a block is carved at offset 240), and on a
  full arena with a \<open>realloc\<close> that fails and one that succeeds.
\<close>

theorem allocate_zero_witness:
  "(\<exists>s'. armalloc 32 libc_full two_free 0 = Some (65560, s') \<and>
      arena_key s' = Some \<lparr>buffer = 65536, capacity = 5242880, offset = 296, freelist = 65680\<rparr> \<and>
      hdrs s' 65536 = \<lparr>size_f = 32, freed = 0, next_f = 0\<rparr>) \<and>
   (\<exists>s'. armalloc 32 libc_full two_live 0 = Some (65800, s') \<and>
      arena_key s' = Some \<lparr>buffer = 65536, capacity = 5242880, offset = 264, freelist = 0\<rparr>) \<and>
   armalloc 32 libc_full (fresh\<lparr>arena_key := Some \<lparr>buffer = 65536, capacity = 5242880, offset = 5242872, freelist = 0\<rparr>\<rparr>) 0
     = Some (0, fresh\<lparr>arena_key := Some \<lparr>buffer = 65536, capacity = 5242880, offset = 5242872, freelist = 0\<rparr>\<rparr>) \<and>
   (\<exists>s'. armalloc 32 libc_ok (fresh\<lparr>arena_key := Some \<lparr>buffer = 65536, capacity = 5242880, offset = 5242872, freelist = 0\<rparr>\<rparr>) 0
     = Some (65536 + 5242872 + hdr_size, s') \<and>
     arena_key s' = Some \<lparr>buffer = 65536, capacity = 10485760, offset = 5242896, freelist = 0\<rparr>) \<and>
   (65536 :: addr) + hdr_size \<noteq> 0"
proof -
  let ?af = "\<lparr>buffer = 65536, capacity = 5242880, offset = 296, freelist = 65536\<rparr>"
  let ?al = "\<lparr>buffer = 65536, capacity = 5242880, offset = 240, freelist = 0\<rparr>"
  let ?ax = "\<lparr>buffer = 65536, capacity = 5242880, offset = 5242872, freelist = 0\<rparr>"
  let ?sx = "fresh\<lparr>arena_key := Some ?ax\<rparr>"
  have 1: "arena_key two_free = Some ?af \<and> freelist ?af \<noteq> 0 \<and> freed (hdrs two_free (freelist ?af)) \<noteq> 0"
    by (simp add: two_free_def)
  have 2: "arena_key two_live = Some ?al \<and> freelist ?al = 0 \<and> \<not> capacity ?al < offset ?al + hdr_size"
    by (simp add: two_live_def hdr_size_def)
  have 3: "arena_key ?sx = Some ?ax \<and> freelist ?ax = 0 \<and> capacity ?ax < offset ?ax + hdr_size"
    by (simp add: hdr_size_def)
  have 4: "realloc libc_full (buffer ?ax) (expand_loop 32 (offset ?ax + hdr_size) (capacity ?ax)) = 0"
    by (simp add: libc_full_def)
  have 5: "realloc libc_ok (buffer ?ax) (expand_loop 32 (offset ?ax + hdr_size) (capacity ?ax)) = 65536 \<and>
      (65536 :: addr) \<noteq> 0"
    by (simp add: libc_ok_def)
  have 6: "expand_loop 32 (offset ?ax + hdr_size) (capacity ?ax) = 10485760"
    by (simp add: expand_loop_once hdr_size_def)
  have 7: "(65536 :: addr) \<noteq> 0 \<and> unat (65536 :: addr) + unat hdr_size < 2 ^ 64"
    by (simp add: hdr_size_def)
  from allocate_zero[of two_free ?af 32 libc_full "[]" 0 0 65536] 1 7
  have a: "\<exists>s'. armalloc 32 libc_full two_free 0 = Some (65560, s') \<and>
      arena_key s' = Some \<lparr>buffer = 65536, capacity = 5242880, offset = 296, freelist = 65680\<rparr> \<and>
      hdrs s' 65536 = \<lparr>size_f = 32, freed = 0, next_f = 0\<rparr>"
    and e: "(65536 :: addr) + hdr_size \<noteq> 0"
    by (simp_all add: two_free_def hdr_size_def)
  from allocate_zero[of two_live ?al 32 libc_full "[]" 0 0 0] 2
  have b: "\<exists>s'. armalloc 32 libc_full two_live 0 = Some (65800, s') \<and>
      arena_key s' = Some \<lparr>buffer = 65536, capacity = 5242880, offset = 264, freelist = 0\<rparr>"
    by (simp add: hdr_size_def)
  from allocate_zero[of ?sx ?ax 32 libc_full "[]" 0 0 0] 3 4
  have c: "armalloc 32 libc_full ?sx 0 = Some (0, ?sx)" by blast
  from allocate_zero[of ?sx ?ax 32 libc_ok "[]" 0 65536 0] 3 5
  have "\<exists>s'. armalloc 32 libc_ok ?sx 0 = Some (65536 + offset ?ax + hdr_size, s') \<and>
         arena_key s' = Some (?ax\<lparr>buffer := 65536,
            capacity := expand_loop 32 (offset ?ax + hdr_size) (capacity ?ax),
            offset := offset ?ax + hdr_size\<rparr>)"
    by blast
  then have d: "\<exists>s'. armalloc 32 libc_ok ?sx 0 = Some (65536 + 5242872 + hdr_size, s') \<and>
     arena_key s' = Some \<lparr>buffer = 65536, capacity = 10485760, offset = 5242896, freelist = 0\<rparr>"
    unfolding 6 by (simp add: hdr_size_def)
  from a b c d e show ?thesis by blast
qed

end
